theory Spec2Isabelle
  imports Complex_Main
begin

section \<open>JavaScript values\<close>

text \<open>
  The parser of \<^verbatim>\<open>src/CLDRPluralRuleParser.js\<close> is one function, \<^verbatim>\<open>pluralRuleParser(rule, number)\<close>,
  whose inner functions share the variables \<^verbatim>\<open>rule\<close>, \<^verbatim>\<open>number\<close> and the cursor \<^verbatim>\<open>pos\<close>.
  The values it handles are dynamically typed: \<^verbatim>\<open>null\<close> (no match), \<^verbatim>\<open>undefined\<close> (a read past
  the end of an array), booleans, numbers, strings and arrays.

  A JavaScript number is an IEEE double: \<open>NaN\<close>, one of the two infinities, or a finite
  value, which the model holds as the rational it denotes. The two operations of the parser
  whose exact result need not be a double, reading a string of digits and addition, round
  that result to the nearest double (\<open>round_double\<close> below); the remainder of two doubles is a
  double, and is exact. \<open>-0\<close> is identified with \<open>0\<close> (the parser never observes the
  difference: \<^verbatim>\<open>-0 === 0\<close>, \<^verbatim>\<open>String(-0)\<close> is \<^verbatim>\<open>"0"\<close>). The type also holds rationals that
  are not doubles; what is proved for every number holds for the doubles among them.

  A string is a list of characters; Isabelle's characters are 8-bit, so the model covers
  rule texts whose code units are below 256. The argument \<^verbatim>\<open>number\<close> is a number (the source
  also accepts a string there, which the operands convert).
\<close>

datatype jsnum = NaN | Fin rat | PInf | NInf

datatype val = Null | Undefined | Bool bool | Num jsnum | Str string | Arr "val list"

subsection \<open>Characters and strings\<close>

text \<open>White space as \<^verbatim>\<open>\s\<close> and \<^verbatim>\<open>String.prototype.trim\<close> see it (the code units below 256).\<close>

definition is_space :: "char \<Rightarrow> bool" where
  "is_space c = ((of_char c :: nat) \<in> {9, 10, 11, 12, 13, 32, 160})"

text \<open>A decimal digit, as \<^verbatim>\<open>\d\<close> sees it.\<close>

definition is_digit :: "char \<Rightarrow> bool" where
  "is_digit c = (48 \<le> (of_char c :: nat) \<and> (of_char c :: nat) \<le> 57)"

text \<open>\<^verbatim>\<open>s.indexOf(c)\<close> for a one-character search string: the first index, or \<open>-1\<close>.\<close>

primrec indexOf :: "string \<Rightarrow> char \<Rightarrow> int" where
  "indexOf [] c = - 1"
| "indexOf (x # xs) c =
     (if x = c then 0 else (let i = indexOf xs c in if i < 0 then - 1 else i + 1))"

text \<open>
  \<^verbatim>\<open>s.substr(start, length)\<close> with a start that is not negative: a length below zero is
  taken as zero, and the result stops at the end of the string.
\<close>

definition substr :: "string \<Rightarrow> nat \<Rightarrow> int \<Rightarrow> string" where
  "substr s start len = take (nat len) (drop start s)"

definition trim :: "string \<Rightarrow> string" where
  "trim s = rev (dropWhile is_space (rev (dropWhile is_space s)))"

text \<open>\<^verbatim>\<open>s.replace(/0$/, '')\<close>: one zero at the very end of the string is removed.\<close>

definition replace_trailing_zero :: "string \<Rightarrow> string" where
  "replace_trailing_zero s = (if s \<noteq> [] \<and> last s = CHR ''0'' then butlast s else s)"

subsection \<open>Numbers to strings\<close>

definition digit_char :: "int \<Rightarrow> char" where
  "digit_char d = char_of (48 + d)"

text \<open>The decimal digits of an integer that is not negative, most significant first.\<close>

fun digits :: "int \<Rightarrow> string" where
  "digits n = (if n < 10 then [digit_char n] else digits (n div 10) @ [digit_char (n mod 10)])"

declare digits.simps [simp del]

definition pow10 :: "int \<Rightarrow> rat" where
  "pow10 e = (if 0 \<le> e then 10 ^ nat e else 1 / 10 ^ nat (- e))"

text \<open>The decimal exponent \<open>n\<close> of a positive number \<open>x\<close>: \<open>10^(n-1) \<le> x < 10^n\<close>.\<close>

definition dec_exponent :: "rat \<Rightarrow> int" where
  "dec_exponent x =
     (let (a, b) = quotient_of x;
          d = int (length (digits a)) - int (length (digits b))
      in if x < pow10 d then d else d + 1)"

text \<open>
  The significant digits of a positive number. ECMAScript prints the shortest digits that
  read back as the same double, at most 17; the model prints the first 17 digits of the
  number's decimal expansion, without the zeros at their end. For an integer up to \<open>2^53\<close>
  and for a number such as \<open>1.5\<close> or \<open>0.5\<close> these are its digits, and what ECMAScript prints.
\<close>

definition sig_digits :: "rat \<Rightarrow> int \<Rightarrow> string" where
  "sig_digits x n =
     rev (dropWhile (\<lambda>c. c = CHR ''0'') (rev (digits \<lfloor>x * pow10 (17 - n)\<rfloor>)))"

text \<open>
  \<^verbatim>\<open>Number::toString\<close> of ECMAScript for a positive number, with \<open>n\<close> the decimal exponent,
  \<open>s\<close> the significant digits and \<open>k\<close> their count: plain digits, digits with a decimal point,
  \<^verbatim>\<open>0.\<close> followed by zeros and digits, or the exponential form.
\<close>

definition pos_to_string :: "rat \<Rightarrow> string" where
  "pos_to_string x =
     (let n = dec_exponent x; s = sig_digits x n; k = int (length s) in
      if k \<le> n \<and> n \<le> 21 then s @ replicate (nat (n - k)) CHR ''0''
      else if 0 < n \<and> n \<le> 21 then take (nat n) s @ ''.'' @ drop (nat n) s
      else if - 6 < n \<and> n \<le> 0 then ''0.'' @ replicate (nat (- n)) CHR ''0'' @ s
      else (if k = 1 then s else take 1 s @ ''.'' @ drop 1 s)
           @ ''e'' @ (if n - 1 < 0 then ''-'' else ''+'') @ digits \<bar>n - 1\<bar>)"

definition num_to_string :: "jsnum \<Rightarrow> string" where
  "num_to_string x =
     (case x of
        NaN \<Rightarrow> ''NaN''
      | PInf \<Rightarrow> ''Infinity''
      | NInf \<Rightarrow> ''-Infinity''
      | Fin q \<Rightarrow> if q = 0 then ''0''
                 else if q < 0 then ''-'' @ pos_to_string (- q)
                 else pos_to_string q)"

text \<open>\<^verbatim>\<open>String(v)\<close>: an array is the comma-separated text of its elements.\<close>

fun join_comma :: "string list \<Rightarrow> string" where
  "join_comma [] = []"
| "join_comma [s] = s"
| "join_comma (s # t # ss) = s @ '','' @ join_comma (t # ss)"

fun to_string :: "val \<Rightarrow> string" where
  "to_string Null = ''null''"
| "to_string Undefined = ''undefined''"
| "to_string (Bool b) = (if b then ''true'' else ''false'')"
| "to_string (Num x) = num_to_string x"
| "to_string (Str s) = s"
| "to_string (Arr xs) =
     join_comma (map (\<lambda>v. if v = Null \<or> v = Undefined then [] else to_string v) xs)"

subsection \<open>Rounding to a double\<close>

text \<open>The number of binary digits of a positive integer.\<close>

fun bit_length :: "int \<Rightarrow> nat" where
  "bit_length n = (if n \<le> 0 then 0 else Suc (bit_length (n div 2)))"

declare bit_length.simps [simp del]

definition pow2 :: "int \<Rightarrow> rat" where
  "pow2 e = (if 0 \<le> e then 2 ^ nat e else 1 / 2 ^ nat (- e))"

text \<open>The binary exponent \<open>e\<close> of a positive number \<open>x\<close>: \<open>2^e \<le> x < 2^(e+1)\<close>.\<close>

definition bin_exponent :: "rat \<Rightarrow> int" where
  "bin_exponent x =
     (let (a, b) = quotient_of x;
          d = int (bit_length a) - int (bit_length b)
      in if x < pow2 d then d - 1 else d)"

text \<open>The nearest integer; of two equally near ones, the even one.\<close>

definition round_half_even :: "rat \<Rightarrow> int" where
  "round_half_even r =
     (let f = \<lfloor>r\<rfloor>; d = r - of_int f
      in if d < 1 / 2 then f
         else if 1 / 2 < d then f + 1
         else if even f then f else f + 1)"

text \<open>
  The double nearest to a positive number: a significand of 53 binary digits at the
  number's exponent (at the least exponent \<open>-1022\<close> below it), ties to the even significand;
  a result of \<open>2^1024\<close> or more is \<open>Infinity\<close>.
\<close>

definition round_pos :: "rat \<Rightarrow> jsnum" where
  "round_pos x =
     (let e = max (bin_exponent x) (- 1022);
          m = round_half_even (x / pow2 (e - 52))
      in if 1024 \<le> e \<or> (e = 1023 \<and> m = 9007199254740992) then PInf
         else Fin (of_int m * pow2 (e - 52)))"

definition round_double :: "rat \<Rightarrow> jsnum" where
  "round_double x =
     (if x = 0 then Fin 0
      else if 0 < x then round_pos x
      else (case round_pos (- x) of Fin y \<Rightarrow> Fin (- y) | PInf \<Rightarrow> NInf | z \<Rightarrow> z))"

subsection \<open>Strings to numbers\<close>

definition digit_val :: "char \<Rightarrow> int" where
  "digit_val c = of_char c - 48"

text \<open>The integer a string of decimal digits denotes.\<close>

definition parse_digits :: "string \<Rightarrow> int" where
  "parse_digits ds = foldl (\<lambda>acc c. acc * 10 + digit_val c) 0 ds"

text \<open>
  \<^verbatim>\<open>parseInt(s)\<close> and \<^verbatim>\<open>parseInt(s, 10)\<close> on a string: leading white space, a sign, then the
  longest run of decimal digits; \<open>NaN\<close> when there is no digit. The result is the double
  nearest to the integer the digits denote, which is that integer up to \<open>2^53\<close>. (ECMAScript
  lets an implementation read the digits after the 20th as zeros; the model reads them
  all. Without a radix, \<^verbatim>\<open>parseInt\<close> reads a \<^verbatim>\<open>0x\<close> prefix as hexadecimal; the parser only
  passes it digit strings matched by \<^verbatim>\<open>/^\d+/\<close>, the text of a number and \<^verbatim>\<open>undefined\<close>,
  none of which has the prefix.)
\<close>

definition parseInt_str :: "string \<Rightarrow> jsnum" where
  "parseInt_str s =
     (let s1 = dropWhile is_space s;
          neg = (s1 \<noteq> [] \<and> hd s1 = CHR ''-'');
          s2 = (if s1 \<noteq> [] \<and> (hd s1 = CHR ''-'' \<or> hd s1 = CHR ''+'') then tl s1 else s1);
          ds = takeWhile is_digit s2
      in if ds = [] then NaN
         else round_double (if neg then - of_int (parse_digits ds) else of_int (parse_digits ds)))"

text \<open>\<^verbatim>\<open>parseInt(v)\<close>: the argument is converted to a string first.\<close>

definition parseInt :: "val \<Rightarrow> jsnum" where
  "parseInt v = parseInt_str (to_string v)"

text \<open>
  \<^verbatim>\<open>parseFloat(number)\<close> on a number: the number is printed and read back, and ECMAScript
  prints a number so that reading it back gives the same number.
\<close>

definition parseFloat :: "jsnum \<Rightarrow> jsnum" where
  "parseFloat x = x"

subsection \<open>Operators\<close>

definition trunc :: "rat \<Rightarrow> int" where
  "trunc q = (if 0 \<le> q then \<lfloor>q\<rfloor> else \<lceil>q\<rceil>)"

text \<open>
  \<^verbatim>\<open>a % b\<close>: the remainder has the sign of the dividend; \<open>NaN\<close> when the divisor is zero or
  the dividend is infinite; the dividend itself when only the divisor is infinite.
\<close>

definition js_rem :: "jsnum \<Rightarrow> jsnum \<Rightarrow> jsnum" where
  "js_rem x y =
     (case (x, y) of
        (Fin a, Fin b) \<Rightarrow> if b = 0 then NaN else Fin (a - b * of_int (trunc (a / b)))
      | (Fin a, PInf) \<Rightarrow> Fin a
      | (Fin a, NInf) \<Rightarrow> Fin a
      | _ \<Rightarrow> NaN)"

text \<open>
  \<^verbatim>\<open>a + b\<close> on numbers: the exact sum, rounded to a double. From \<open>2^53\<close> on the doubles are
  at least two apart, and \<^verbatim>\<open>i + 1\<close> can be \<^verbatim>\<open>i\<close> again.
\<close>

definition js_add :: "jsnum \<Rightarrow> jsnum \<Rightarrow> jsnum" where
  "js_add x y =
     (case (x, y) of
        (Fin a, Fin b) \<Rightarrow> round_double (a + b)
      | (Fin a, PInf) \<Rightarrow> PInf
      | (Fin a, NInf) \<Rightarrow> NInf
      | (PInf, Fin b) \<Rightarrow> PInf
      | (PInf, PInf) \<Rightarrow> PInf
      | (NInf, Fin b) \<Rightarrow> NInf
      | (NInf, NInf) \<Rightarrow> NInf
      | _ \<Rightarrow> NaN)"

text \<open>\<^verbatim>\<open>a <= b\<close> and \<^verbatim>\<open>a < b\<close> on numbers: false when either side is \<open>NaN\<close>.\<close>

definition num_le :: "jsnum \<Rightarrow> jsnum \<Rightarrow> bool" where
  "num_le x y =
     (case (x, y) of
        (Fin a, Fin b) \<Rightarrow> a \<le> b
      | (Fin a, PInf) \<Rightarrow> True
      | (NInf, Fin b) \<Rightarrow> True
      | (NInf, NInf) \<Rightarrow> True
      | (NInf, PInf) \<Rightarrow> True
      | (PInf, PInf) \<Rightarrow> True
      | _ \<Rightarrow> False)"

definition num_lt :: "jsnum \<Rightarrow> jsnum \<Rightarrow> bool" where
  "num_lt x y =
     (case (x, y) of
        (Fin a, Fin b) \<Rightarrow> a < b
      | (Fin a, PInf) \<Rightarrow> True
      | (NInf, Fin b) \<Rightarrow> True
      | (NInf, PInf) \<Rightarrow> True
      | _ \<Rightarrow> False)"

text \<open>
  \<^verbatim>\<open>a === b\<close>. \<open>NaN\<close> equals nothing. Two arrays are equal when they are the same object,
  which the model cannot tell; the parser compares with \<^verbatim>\<open>===\<close> only where one side is
  \<^verbatim>\<open>null\<close>, a number or a string.
\<close>

fun strict_eq :: "val \<Rightarrow> val \<Rightarrow> bool" where
  "strict_eq (Num x) (Num y) = (x \<noteq> NaN \<and> x = y)"
| "strict_eq (Arr xs) (Arr ys) = False"
| "strict_eq a b = (a = b)"

fun truthy :: "val \<Rightarrow> bool" where
  "truthy Null = False"
| "truthy Undefined = False"
| "truthy (Bool b) = b"
| "truthy (Num x) = (x \<noteq> NaN \<and> x \<noteq> Fin 0)"
| "truthy (Str s) = (s \<noteq> [])"
| "truthy (Arr xs) = True"

definition js_or :: "val \<Rightarrow> val \<Rightarrow> val" where
  "js_or a b = (if truthy a then a else b)"

definition js_and :: "val \<Rightarrow> val \<Rightarrow> val" where
  "js_and a b = (if truthy a then b else a)"

text \<open>
  \<^verbatim>\<open>a >= b\<close> and \<^verbatim>\<open>a < b\<close> where the right side is a number: the left side is converted to a
  number. The parser's left side is the value of an expression, a number; a string or an
  array on the left does not occur and is read as \<open>NaN\<close> here.
\<close>

fun to_number :: "val \<Rightarrow> jsnum" where
  "to_number (Num x) = x"
| "to_number Null = Fin 0"
| "to_number (Bool b) = (if b then Fin 1 else Fin 0)"
| "to_number v = NaN"

definition js_ge :: "val \<Rightarrow> jsnum \<Rightarrow> bool" where
  "js_ge a y = num_le y (to_number a)"

definition js_lt :: "val \<Rightarrow> jsnum \<Rightarrow> bool" where
  "js_lt a y = num_lt (to_number a) y"

text \<open>\<^verbatim>\<open>a[i]\<close>: \<^verbatim>\<open>undefined\<close> outside the array.\<close>

fun idx :: "val \<Rightarrow> int \<Rightarrow> val" where
  "idx (Arr xs) i = (if 0 \<le> i \<and> nat i < length xs then xs ! nat i else Undefined)"
| "idx (Str s) i = (if 0 \<le> i \<and> nat i < length s then Str [s ! nat i] else Undefined)"
| "idx v i = Undefined"

text \<open>\<^verbatim>\<open>a.length\<close>: \<^verbatim>\<open>undefined\<close> on a number.\<close>

fun length_of :: "val \<Rightarrow> val" where
  "length_of (Arr xs) = Num (Fin (of_nat (length xs)))"
| "length_of (Str s) = Num (Fin (of_nat (length s)))"
| "length_of v = Undefined"

text \<open>The elements an index loop \<^verbatim>\<open>for (i = 0; i < a.length; i++)\<close> visits.\<close>

fun elems :: "val \<Rightarrow> val list" where
  "elems (Arr xs) = xs"
| "elems (Str s) = map (\<lambda>c. Str [c]) s"
| "elems v = []"

text \<open>\<^verbatim>\<open>xs.concat(v)\<close>: an array argument is spliced in, anything else is appended.\<close>

fun concat_val :: "val list \<Rightarrow> val \<Rightarrow> val list" where
  "concat_val xs (Arr ys) = xs @ ys"
| "concat_val xs v = xs @ [v]"

section \<open>The parser\<close>

text \<open>
  Every parsing function of the source takes no argument, reads the shared cursor \<^verbatim>\<open>pos\<close>,
  returns \<^verbatim>\<open>null\<close> or a value and may move the cursor. In the model a parser takes the
  cursor and returns the value with the new cursor, or raises what the code throws.
  Recursive productions and the \<^verbatim>\<open>while\<close> loop of \<^verbatim>\<open>nOrMore\<close> take fuel, a bound on nested
  calls and loop iterations; \<open>OutOfFuel\<close> means that the fuel ran out, that is, no answer
  within the bound. More fuel never changes an answer (lemma \<open>pluralRuleParser_mono\<close>), and
  fuel of twice the length of the rule plus five is always enough (lemma
  \<open>pluralRuleParser_returns\<close>).

  The calls of \<^verbatim>\<open>debug\<close> do nothing and are left out, and so are the parser \<^verbatim>\<open>decimal\<close> and the
  function \<^verbatim>\<open>sampleRangeTail\<close>, which nothing calls.
\<close>

text \<open>
  The only exception a parsing function can raise is the \<^verbatim>\<open>RangeError\<close> of an array that
  cannot grow any further (in \<^verbatim>\<open>range\<close>); nothing in the source catches it.
\<close>

datatype 'a result = OutOfFuel | RangeError | Done 'a

type_synonym parser = "nat \<Rightarrow> (val \<times> nat) result"

subsection \<open>Combinators\<close>

text \<open>
  \<^verbatim>\<open>choice\<close>: the first parser whose result is not \<^verbatim>\<open>null\<close> wins. The cursor is not restored
  between alternatives.
\<close>

fun choice :: "parser list \<Rightarrow> parser" where
  "choice [] pos = Done (Null, pos)"
| "choice (p # parserSyntax) pos =
     (case p pos of
        OutOfFuel \<Rightarrow> OutOfFuel
      | RangeError \<Rightarrow> RangeError
      | Done (result, pos') \<Rightarrow>
          if result \<noteq> Null then Done (result, pos') else choice parserSyntax pos')"

text \<open>
  \<^verbatim>\<open>sequence\<close>: all parsers in a row; when one returns \<^verbatim>\<open>null\<close> the cursor goes back to
  \<^verbatim>\<open>originalPos\<close> and the result is \<^verbatim>\<open>null\<close>.
\<close>

fun sequence_loop :: "parser list \<Rightarrow> nat \<Rightarrow> val list \<Rightarrow> parser" where
  "sequence_loop [] originalPos result pos = Done (Arr result, pos)"
| "sequence_loop (p # parserSyntax) originalPos result pos =
     (case p pos of
        OutOfFuel \<Rightarrow> OutOfFuel
      | RangeError \<Rightarrow> RangeError
      | Done (res, pos') \<Rightarrow>
          if res = Null then Done (Null, originalPos)
          else sequence_loop parserSyntax originalPos (result @ [res]) pos')"

definition sequence :: "parser list \<Rightarrow> parser" where
  "sequence parserSyntax pos = sequence_loop parserSyntax pos [] pos"

text \<open>
  \<^verbatim>\<open>nOrMore\<close>: the parser \<open>p\<close> is run until it returns \<^verbatim>\<open>null\<close>; with fewer than \<open>n\<close>
  results the cursor goes back and the result is \<^verbatim>\<open>null\<close>. Each turn of the loop uses one
  unit of fuel.
\<close>

fun nOrMore_while :: "nat \<Rightarrow> parser \<Rightarrow> val list \<Rightarrow> val \<Rightarrow> nat \<Rightarrow> (val list \<times> nat) result" where
  "nOrMore_while 0 p result parsed pos =
     (if parsed \<noteq> Null then OutOfFuel else Done (result, pos))"
| "nOrMore_while (Suc fuel) p result parsed pos =
     (if parsed \<noteq> Null then
        (case p pos of
           OutOfFuel \<Rightarrow> OutOfFuel
         | RangeError \<Rightarrow> RangeError
         | Done (parsed', pos') \<Rightarrow> nOrMore_while fuel p (result @ [parsed]) parsed' pos')
      else Done (result, pos))"

definition nOrMore :: "nat \<Rightarrow> nat \<Rightarrow> parser \<Rightarrow> parser" where
  "nOrMore fuel n p pos =
     (let originalPos = pos in
      case p pos of
        OutOfFuel \<Rightarrow> OutOfFuel
      | RangeError \<Rightarrow> RangeError
      | Done (parsed, pos1) \<Rightarrow>
          (case nOrMore_while fuel p [] parsed pos1 of
             OutOfFuel \<Rightarrow> OutOfFuel
           | RangeError \<Rightarrow> RangeError
           | Done (result, pos2) \<Rightarrow>
               if length result < n then Done (Null, originalPos)
               else Done (Arr result, pos2)))"

text \<open>\<^verbatim>\<open>makeStringParser(s)\<close>: the text at the cursor is \<open>s\<close>.\<close>

definition makeStringParser :: "string \<Rightarrow> string \<Rightarrow> parser" where
  "makeStringParser s rule pos =
     (if substr rule pos (int (length s)) = s then Done (Str s, pos + length s)
      else Done (Null, pos))"

text \<open>
  \<^verbatim>\<open>makeRegexParser(regex)\<close>: the regular expression is given by its matcher, which returns
  the matched text \<^verbatim>\<open>matches[0]\<close> or nothing.
\<close>

definition makeRegexParser :: "(string \<Rightarrow> string option) \<Rightarrow> string \<Rightarrow> parser" where
  "makeRegexParser regex rule pos =
     (case regex (drop pos rule) of
        None \<Rightarrow> Done (Null, pos)
      | Some m \<Rightarrow> Done (Str m, pos + length m))"

text \<open>The matcher of \<^verbatim>\<open>/^\s+/\<close>.\<close>

definition re_spaces :: "string \<Rightarrow> string option" where
  "re_spaces s = (let m = takeWhile is_space s in if m = [] then None else Some m)"

text \<open>The matcher of \<^verbatim>\<open>/^\d+/\<close>.\<close>

definition re_digits :: "string \<Rightarrow> string option" where
  "re_digits s = (let m = takeWhile is_digit s in if m = [] then None else Some m)"

subsection \<open>Tokens\<close>

definition whitespace :: "string \<Rightarrow> parser" where
  "whitespace = makeRegexParser re_spaces"

definition value_p :: "string \<Rightarrow> parser" where
  "value_p = makeRegexParser re_digits"

definition tok_n :: "string \<Rightarrow> parser" where "tok_n = makeStringParser ''n''"
definition tok_i :: "string \<Rightarrow> parser" where "tok_i = makeStringParser ''i''"
definition tok_f :: "string \<Rightarrow> parser" where "tok_f = makeStringParser ''f''"
definition tok_t :: "string \<Rightarrow> parser" where "tok_t = makeStringParser ''t''"
definition tok_v :: "string \<Rightarrow> parser" where "tok_v = makeStringParser ''v''"
definition tok_w :: "string \<Rightarrow> parser" where "tok_w = makeStringParser ''w''"
definition tok_is :: "string \<Rightarrow> parser" where "tok_is = makeStringParser ''is''"
definition tok_isnot :: "string \<Rightarrow> parser" where "tok_isnot = makeStringParser ''is not''"
definition tok_isnot_sign :: "string \<Rightarrow> parser" where "tok_isnot_sign = makeStringParser ''!=''"
definition tok_equal :: "string \<Rightarrow> parser" where "tok_equal = makeStringParser ''=''"
definition tok_mod :: "string \<Rightarrow> parser" where "tok_mod = makeStringParser ''mod''"
definition tok_percent :: "string \<Rightarrow> parser" where "tok_percent = makeStringParser ''%''"
definition tok_not :: "string \<Rightarrow> parser" where "tok_not = makeStringParser ''not''"
definition tok_in :: "string \<Rightarrow> parser" where "tok_in = makeStringParser ''in''"
definition tok_within :: "string \<Rightarrow> parser" where "tok_within = makeStringParser ''within''"
definition tok_range :: "string \<Rightarrow> parser" where "tok_range = makeStringParser ''..''"
definition tok_comma :: "string \<Rightarrow> parser" where "tok_comma = makeStringParser '',''"
definition tok_or :: "string \<Rightarrow> parser" where "tok_or = makeStringParser ''or''"
definition tok_and :: "string \<Rightarrow> parser" where "tok_and = makeStringParser ''and''"

subsection \<open>Operands\<close>

text \<open>
  Each operand matches its letter and, on a match, derives a number from \<^verbatim>\<open>number\<close>.
  \<^verbatim>\<open>number % 1\<close> is \<open>js_rem number (Fin 1)\<close>; \<^verbatim>\<open>x + ''\<close> is the text of \<open>x\<close>.
\<close>

definition i_p :: "string \<Rightarrow> jsnum \<Rightarrow> parser" where
  "i_p rule number pos =
     (case tok_i rule pos of
        OutOfFuel \<Rightarrow> OutOfFuel
      | RangeError \<Rightarrow> RangeError
      | Done (result, pos') \<Rightarrow>
          if result = Null then Done (result, pos')
          else Done (Num (parseInt (Num number)), pos'))"

definition n_p :: "string \<Rightarrow> jsnum \<Rightarrow> parser" where
  "n_p rule number pos =
     (case tok_n rule pos of
        OutOfFuel \<Rightarrow> OutOfFuel
      | RangeError \<Rightarrow> RangeError
      | Done (result, pos') \<Rightarrow>
          if result = Null then Done (result, pos')
          else Done (Num (parseFloat number), pos'))"

definition f_p :: "string \<Rightarrow> jsnum \<Rightarrow> parser" where
  "f_p rule number pos =
     (case tok_f rule pos of
        OutOfFuel \<Rightarrow> OutOfFuel
      | RangeError \<Rightarrow> RangeError
      | Done (result, pos') \<Rightarrow>
          if result = Null then Done (result, pos')
          else Done (Num (js_rem number (Fin 1)), pos'))"

definition t_p :: "string \<Rightarrow> jsnum \<Rightarrow> parser" where
  "t_p rule number pos =
     (case tok_t rule pos of
        OutOfFuel \<Rightarrow> OutOfFuel
      | RangeError \<Rightarrow> RangeError
      | Done (result, pos') \<Rightarrow>
          if result = Null then Done (result, pos')
          else Done (js_or (Num (parseInt (Str (replace_trailing_zero
                                (num_to_string (js_rem number (Fin 1)))))))
                           (Num (Fin 0)), pos'))"

text \<open>
  In \<^verbatim>\<open>parseInt(number % 1) + ''.length\<close> the member access binds first: the sum is the
  parsed integer plus the length of the empty string.
\<close>

definition v_p :: "string \<Rightarrow> jsnum \<Rightarrow> parser" where
  "v_p rule number pos =
     (case tok_v rule pos of
        OutOfFuel \<Rightarrow> OutOfFuel
      | RangeError \<Rightarrow> RangeError
      | Done (result, pos') \<Rightarrow>
          if result = Null then Done (result, pos')
          else Done (Num (js_add (parseInt (Num (js_rem number (Fin 1))))
                                 (to_number (length_of (Str [])))), pos'))"

text \<open>The source's \<^verbatim>\<open>w\<close> calls the token parser \<^verbatim>\<open>_v_\<close>, and takes \<^verbatim>\<open>.length\<close> of a number.\<close>

definition w_p :: "string \<Rightarrow> jsnum \<Rightarrow> parser" where
  "w_p rule number pos =
     (case tok_v rule pos of
        OutOfFuel \<Rightarrow> OutOfFuel
      | RangeError \<Rightarrow> RangeError
      | Done (result, pos') \<Rightarrow>
          if result = Null then Done (result, pos')
          else Done (js_or (length_of (Num (parseInt (Str (replace_trailing_zero
                                (num_to_string (js_rem number (Fin 1))))))))
                           (Num (Fin 0)), pos'))"

definition operand :: "string \<Rightarrow> jsnum \<Rightarrow> parser" where
  "operand rule number =
     choice [n_p rule number, i_p rule number, f_p rule number,
             t_p rule number, v_p rule number, w_p rule number]"

subsection \<open>Expressions and relations\<close>

definition mod_p :: "string \<Rightarrow> jsnum \<Rightarrow> parser" where
  "mod_p rule number pos =
     (case sequence [operand rule number, whitespace rule,
                     choice [tok_mod rule, tok_percent rule], whitespace rule, value_p rule] pos of
        OutOfFuel \<Rightarrow> OutOfFuel
      | RangeError \<Rightarrow> RangeError
      | Done (result, pos') \<Rightarrow>
          if result = Null then Done (Null, pos')
          else Done (Num (js_rem (parseInt (idx result 0)) (parseInt (idx result 4))), pos'))"

definition expression :: "string \<Rightarrow> jsnum \<Rightarrow> parser" where
  "expression rule number = choice [mod_p rule number, operand rule number]"

definition not_p :: "string \<Rightarrow> parser" where
  "not_p rule pos =
     (case sequence [whitespace rule, tok_not rule] pos of
        OutOfFuel \<Rightarrow> OutOfFuel
      | RangeError \<Rightarrow> RangeError
      | Done (result, pos') \<Rightarrow>
          if result = Null then Done (Null, pos') else Done (idx result 1, pos'))"

definition is_p :: "string \<Rightarrow> jsnum \<Rightarrow> parser" where
  "is_p rule number pos =
     (case sequence [expression rule number, whitespace rule, tok_is rule,
                     whitespace rule, value_p rule] pos of
        OutOfFuel \<Rightarrow> OutOfFuel
      | RangeError \<Rightarrow> RangeError
      | Done (result, pos') \<Rightarrow>
          if result \<noteq> Null
          then Done (Bool (strict_eq (idx result 0) (Num (parseInt (idx result 4)))), pos')
          else Done (Null, pos'))"

definition isnot :: "string \<Rightarrow> jsnum \<Rightarrow> parser" where
  "isnot rule number pos =
     (case sequence [expression rule number, whitespace rule,
                     choice [tok_isnot rule, tok_isnot_sign rule],
                     whitespace rule, value_p rule] pos of
        OutOfFuel \<Rightarrow> OutOfFuel
      | RangeError \<Rightarrow> RangeError
      | Done (result, pos') \<Rightarrow>
          if result \<noteq> Null
          then Done (Bool (\<not> strict_eq (idx result 0) (Num (parseInt (idx result 4)))), pos')
          else Done (Null, pos'))"

subsection \<open>Ranges\<close>

text \<open>
  The loop \<^verbatim>\<open>for (i = left; i <= right; i++) array.push(i)\<close>. An array holds at most
  \<open>2^32 - 1\<close> elements, and \<^verbatim>\<open>push\<close> on a full array throws a \<^verbatim>\<open>RangeError\<close>; this is how the
  loop ends when \<^verbatim>\<open>i++\<close> no longer changes \<^verbatim>\<open>i\<close>. (An engine may run out of memory before the
  array is full; the model has the limit of the language.)
\<close>

function range_loop :: "jsnum \<Rightarrow> jsnum \<Rightarrow> val list \<Rightarrow> val list result" where
  "range_loop i right array =
     (if num_le i right
      then (if int (length array) < 4294967295
            then range_loop (js_add i (Fin 1)) right (array @ [Num i])
            else RangeError)
      else Done array)"
  by pat_completeness auto
termination
  by (relation "measure (\<lambda>(i, right, array). nat (4294967295 - int (length array)))") auto

declare range_loop.simps [simp del]

definition range_p :: "string \<Rightarrow> parser" where
  "range_p rule pos =
     (case sequence [value_p rule, tok_range rule, value_p rule] pos of
        OutOfFuel \<Rightarrow> OutOfFuel
      | RangeError \<Rightarrow> RangeError
      | Done (result, pos') \<Rightarrow>
          if result \<noteq> Null
          then (let left = parseInt (idx result 0); right = parseInt (idx result 2)
                in case range_loop left right [] of
                     OutOfFuel \<Rightarrow> OutOfFuel
                   | RangeError \<Rightarrow> RangeError
                   | Done array \<Rightarrow> Done (Arr array, pos'))
          else Done (Null, pos'))"

text \<open>
  \<^verbatim>\<open>rangeList\<close> and \<^verbatim>\<open>rangeTail\<close> call each other; each call uses one unit of fuel.
\<close>

fun rangeList :: "nat \<Rightarrow> string \<Rightarrow> parser"
  and rangeTail :: "nat \<Rightarrow> string \<Rightarrow> parser" where
  "rangeList 0 rule pos = OutOfFuel"
| "rangeList (Suc fuel) rule pos =
     (case sequence [choice [range_p rule, value_p rule],
                     nOrMore fuel 0 (rangeTail fuel rule)] pos of
        OutOfFuel \<Rightarrow> OutOfFuel
      | RangeError \<Rightarrow> RangeError
      | Done (result, pos') \<Rightarrow>
          if result \<noteq> Null
          then (let resultList = concat_val [] (idx result 0);
                    resultList = (if truthy (idx (idx result 1) 0)
                                  then concat_val resultList (idx (idx result 1) 0)
                                  else resultList)
                in Done (Arr resultList, pos'))
          else Done (Null, pos'))"
| "rangeTail 0 rule pos = OutOfFuel"
| "rangeTail (Suc fuel) rule pos =
     (case sequence [tok_comma rule, rangeList fuel rule] pos of
        OutOfFuel \<Rightarrow> OutOfFuel
      | RangeError \<Rightarrow> RangeError
      | Done (result, pos') \<Rightarrow>
          if result \<noteq> Null then Done (idx result 1, pos') else Done (Null, pos'))"

subsection \<open>Relations over range lists\<close>

text \<open>
  The loop of \<^verbatim>\<open>not_in\<close>: \<^verbatim>\<open>false\<close> at the first element whose integer equals the
  expression's value, \<^verbatim>\<open>true\<close> when there is none.
\<close>

fun not_in_loop :: "val list \<Rightarrow> val \<Rightarrow> bool" where
  "not_in_loop [] x = True"
| "not_in_loop (r # range_list) x =
     (if strict_eq (Num (parseInt r)) x then False else not_in_loop range_list x)"

definition not_in :: "nat \<Rightarrow> string \<Rightarrow> jsnum \<Rightarrow> parser" where
  "not_in fuel rule number pos =
     (case sequence [expression rule number, whitespace rule, tok_isnot_sign rule,
                     whitespace rule, rangeList fuel rule] pos of
        OutOfFuel \<Rightarrow> OutOfFuel
      | RangeError \<Rightarrow> RangeError
      | Done (result, pos') \<Rightarrow>
          if result \<noteq> Null
          then Done (Bool (not_in_loop (elems (idx result 4)) (idx result 0)), pos')
          else Done (Null, pos'))"

text \<open>
  The loop of \<^verbatim>\<open>_in\<close>: at the first element whose integer equals the expression's value
  the result is \<^verbatim>\<open>result[1][0] !== 'not'\<close>, and \<^verbatim>\<open>result[1][0] === 'not'\<close> when there is
  none; \<open>n\<close> is \<^verbatim>\<open>result[1][0]\<close>.
\<close>

fun in_loop :: "val list \<Rightarrow> val \<Rightarrow> val \<Rightarrow> bool" where
  "in_loop [] x n = strict_eq n (Str ''not'')"
| "in_loop (r # range_list) x n =
     (if strict_eq (Num (parseInt r)) x then \<not> strict_eq n (Str ''not'')
      else in_loop range_list x n)"

definition in_p :: "nat \<Rightarrow> string \<Rightarrow> jsnum \<Rightarrow> parser" where
  "in_p fuel rule number pos =
     (case sequence [expression rule number, nOrMore fuel 0 (not_p rule), whitespace rule,
                     choice [tok_in rule, tok_equal rule], whitespace rule,
                     rangeList fuel rule] pos of
        OutOfFuel \<Rightarrow> OutOfFuel
      | RangeError \<Rightarrow> RangeError
      | Done (result, pos') \<Rightarrow>
          if result \<noteq> Null
          then Done (Bool (in_loop (elems (idx result 5)) (idx result 0)
                             (idx (idx result 1) 0)), pos')
          else Done (Null, pos'))"

definition within_p :: "nat \<Rightarrow> string \<Rightarrow> jsnum \<Rightarrow> parser" where
  "within_p fuel rule number pos =
     (case sequence [expression rule number, nOrMore fuel 0 (not_p rule), whitespace rule,
                     tok_within rule, whitespace rule, rangeList fuel rule] pos of
        OutOfFuel \<Rightarrow> OutOfFuel
      | RangeError \<Rightarrow> RangeError
      | Done (result, pos') \<Rightarrow>
          if result \<noteq> Null
          then (let range_list = idx result 5 in
                if js_ge (idx result 0) (parseInt (idx range_list 0)) \<and>
                   js_lt (idx result 0)
                     (parseInt (idx range_list (int (length (elems range_list)) - 1)))
                then Done (Bool (\<not> strict_eq (idx (idx result 1) 0) (Str ''not'')), pos')
                else Done (Bool (strict_eq (idx (idx result 1) 0) (Str ''not'')), pos'))
          else Done (Null, pos'))"

definition relation :: "nat \<Rightarrow> string \<Rightarrow> jsnum \<Rightarrow> parser" where
  "relation fuel rule number =
     choice [is_p rule number, not_in fuel rule number, isnot rule number,
             in_p fuel rule number, within_p fuel rule number]"

subsection \<open>Conditions\<close>

text \<open>
  \<^verbatim>\<open>and\<close>, \<^verbatim>\<open>or\<close> and \<^verbatim>\<open>condition\<close> call each other; each call uses one unit of fuel.
  \<^verbatim>\<open>condition\<close> returns \<^verbatim>\<open>false\<close>, not \<^verbatim>\<open>null\<close>, when nothing matches.
\<close>

fun and_p :: "nat \<Rightarrow> string \<Rightarrow> jsnum \<Rightarrow> parser"
  and or_p :: "nat \<Rightarrow> string \<Rightarrow> jsnum \<Rightarrow> parser"
  and condition :: "nat \<Rightarrow> string \<Rightarrow> jsnum \<Rightarrow> parser" where
  "and_p 0 rule number pos = OutOfFuel"
| "and_p (Suc fuel) rule number pos =
     (case sequence [relation fuel rule number, whitespace rule, tok_and rule,
                     whitespace rule, condition fuel rule number] pos of
        OutOfFuel \<Rightarrow> OutOfFuel
      | RangeError \<Rightarrow> RangeError
      | Done (result, pos') \<Rightarrow>
          if truthy result then Done (js_and (idx result 0) (idx result 4), pos')
          else Done (Null, pos'))"
| "or_p 0 rule number pos = OutOfFuel"
| "or_p (Suc fuel) rule number pos =
     (case sequence [relation fuel rule number, whitespace rule, tok_or rule,
                     whitespace rule, condition fuel rule number] pos of
        OutOfFuel \<Rightarrow> OutOfFuel
      | RangeError \<Rightarrow> RangeError
      | Done (result, pos') \<Rightarrow>
          if truthy result then Done (js_or (idx result 0) (idx result 4), pos')
          else Done (Null, pos'))"
| "condition 0 rule number pos = OutOfFuel"
| "condition (Suc fuel) rule number pos =
     (case sequence [choice [and_p fuel rule number, or_p fuel rule number,
                             relation fuel rule number]] pos of
        OutOfFuel \<Rightarrow> OutOfFuel
      | RangeError \<Rightarrow> RangeError
      | Done (result, pos') \<Rightarrow>
          if truthy result then Done (idx result 0, pos') else Done (Bool False, pos'))"

declare rangeList.simps [simp del] rangeTail.simps [simp del]
declare and_p.simps [simp del] or_p.simps [simp del] condition.simps [simp del]

definition start :: "nat \<Rightarrow> string \<Rightarrow> jsnum \<Rightarrow> parser" where
  "start fuel rule number = condition fuel rule number"

subsection \<open>The driver\<close>

text \<open>
  A call throws an \<^verbatim>\<open>Error\<close> with a message, lets the \<^verbatim>\<open>RangeError\<close> of a range through, or
  returns a value, after writing lines to the console.
\<close>

datatype outcome = Throw string | ThrowRangeError | Return val "string list"

text \<open>
  \<^verbatim>\<open>pluralRuleParser(rule, number)\<close>. The rule is cut at the first \<^verbatim>\<open>@\<close> with
  \<^verbatim>\<open>rule.substr(0, rule.indexOf('@'))\<close> and trimmed; an empty rule is \<^verbatim>\<open>true\<close>. Otherwise
  the rule is parsed from position 0: \<^verbatim>\<open>null\<close> throws, and a cursor short of the end of the
  rule writes a warning. What the parser raises goes to the caller. \<open>None\<close>: the fuel ran out.
\<close>

definition pluralRuleParser :: "nat \<Rightarrow> string \<Rightarrow> jsnum \<Rightarrow> outcome option" where
  "pluralRuleParser fuel rule0 number =
     (let rule = trim (substr rule0 0 (indexOf rule0 CHR ''@'')) in
      if length rule = 0 then Some (Return (Bool True) [])
      else
        (case start fuel rule number 0 of
           OutOfFuel \<Rightarrow> None
         | RangeError \<Rightarrow> Some ThrowRangeError
         | Done (result, pos) \<Rightarrow>
             if result = Null
             then Some (Throw (''Parse error at position '' @ num_to_string (Fin (of_nat pos))
                               @ '' for rule: '' @ rule))
             else if pos \<noteq> length rule
             then Some (Return result
                    [''Warning: Rule not parsed completely. Parser stopped at ''
                     @ substr rule 0 (int pos) @ '' for rule: '' @ rule])
             else Some (Return result [])))"

section \<open>Properties\<close>

subsection \<open>The cursor\<close>

text \<open>
  A parser keeps to the cursor discipline when, whatever the start, a \<^verbatim>\<open>null\<close> result leaves
  the cursor where it was and any other result leaves it at or beyond the start.
\<close>

definition forward :: "parser \<Rightarrow> bool" where
  "forward p = (\<forall>pos r pos'. p pos = Done (r, pos') \<longrightarrow> (if r = Null then pos' = pos else pos \<le> pos'))"

text \<open>
  \<open>chain ps pos rs pos'\<close>: run in a row from \<open>pos\<close>, the parsers \<open>ps\<close> return the values
  \<open>rs\<close>, none of them \<^verbatim>\<open>null\<close>, and end at \<open>pos'\<close>.
\<close>

fun chain :: "parser list \<Rightarrow> nat \<Rightarrow> val list \<Rightarrow> nat \<Rightarrow> bool" where
  "chain [] pos [] pos' = (pos' = pos)"
| "chain (p # ps) pos (r # rs) pos' = (\<exists>q. p pos = Done (r, q) \<and> r \<noteq> Null \<and> chain ps q rs pos')"
| "chain ps pos rs pos' = False"

text \<open>
  \<open>reps p pos rs pos'\<close>: run again and again from \<open>pos\<close>, the parser \<open>p\<close> returns the values
  \<open>rs\<close>, none of them \<^verbatim>\<open>null\<close>, and then \<^verbatim>\<open>null\<close>, with the cursor at \<open>pos'\<close>.
\<close>

fun reps :: "parser \<Rightarrow> nat \<Rightarrow> val list \<Rightarrow> nat \<Rightarrow> bool" where
  "reps p pos [] pos' = (p pos = Done (Null, pos'))"
| "reps p pos (r # rs) pos' = (\<exists>q. p pos = Done (r, q) \<and> r \<noteq> Null \<and> reps p q rs pos')"

subsection \<open>Range lists as the grammar describes them\<close>

text \<open>
  The grammar's \<^verbatim>\<open>range_list = (range | value) (',' range_list)*\<close>: a list of items, each a
  bare value (a digit string) or a range \<^verbatim>\<open>a..b\<close>. An item's text is what the rule shows; a
  list's text separates the items with commas. A bare value contributes itself, a range the
  integers from \<open>a\<close> to \<open>b\<close>, none when \<open>a > b\<close>; the value of the list is the concatenation
  in the order of the items.
\<close>

datatype item = Value string | Range string string

fun item_text :: "item \<Rightarrow> string" where
  "item_text (Value d) = d"
| "item_text (Range a b) = a @ ''..'' @ b"

fun items_text :: "item list \<Rightarrow> string" where
  "items_text [] = []"
| "items_text [x] = item_text x"
| "items_text (x # y # ys) = item_text x @ '','' @ items_text (y # ys)"

fun item_values :: "item \<Rightarrow> val list" where
  "item_values (Value d) = [Str d]"
| "item_values (Range a b) = map (\<lambda>i. Num (Fin (of_int i))) [parse_digits a..parse_digits b]"

definition range_list_value :: "item list \<Rightarrow> val list" where
  "range_list_value items = concat (map item_values items)"

definition digit_string :: "string \<Rightarrow> bool" where
  "digit_string d = (d \<noteq> [] \<and> list_all is_digit d)"

fun wf_item :: "item \<Rightarrow> bool" where
  "wf_item (Value d) = digit_string d"
| "wf_item (Range a b) = (digit_string a \<and> digit_string b)"


text \<open>The rule text between two cursor positions.\<close>

definition text_at :: "string \<Rightarrow> nat \<Rightarrow> nat \<Rightarrow> string" where
  "text_at rule pos pos' = take (pos' - pos) (drop pos rule)"

text \<open>
  Another item follows at \<open>pos\<close>: the rule has a comma there and a digit right after it.
\<close>

definition tail_start :: "string \<Rightarrow> nat \<Rightarrow> bool" where
  "tail_start rule pos =
     (Suc pos < length rule \<and> rule ! pos = CHR '','' \<and> is_digit (rule ! Suc pos))"

definition parses_items :: "string \<Rightarrow> nat \<Rightarrow> nat \<Rightarrow> val \<Rightarrow> item list \<Rightarrow> bool" where
  "parses_items rule pos pos' r items =
     (items \<noteq> [] \<and> list_all wf_item items \<and> pos \<le> pos' \<and>
      text_at rule pos pos' = items_text items \<and> r = Arr (range_list_value items))"

subsection \<open>Fuel\<close>

text \<open>
  \<open>extends p q\<close>: wherever \<open>p\<close> answers, with a result or by raising, \<open>q\<close> answers the
  same. A production with more fuel extends the production with less.
\<close>

definition extends :: "parser \<Rightarrow> parser \<Rightarrow> bool" where
  "extends p q = (\<forall>pos. p pos \<noteq> OutOfFuel \<longrightarrow> q pos = p pos)"

text \<open>
  \<open>returns p pos\<close>: started at \<open>pos\<close>, the parser \<open>p\<close> returns within its fuel.
  \<open>answers p pos\<close>: it returns or raises within its fuel.
\<close>

definition returns :: "parser \<Rightarrow> nat \<Rightarrow> bool" where
  "returns p pos = (\<exists>res. p pos = Done res)"

definition answers :: "parser \<Rightarrow> nat \<Rightarrow> bool" where
  "answers p pos = (p pos \<noteq> OutOfFuel)"

section \<open>Lemmas\<close>

subsection \<open>Sequences, choices and repetitions\<close>

text \<open>
  A \<^verbatim>\<open>sequence\<close> that returns an array ran its parsers in a row (\<open>chain\<close>); one that
  returns \<^verbatim>\<open>null\<close> is back at its start.
\<close>

lemma sequence_loop_Null:
  "sequence_loop ps opos acc pos = Done (Null, pos') \<Longrightarrow> pos' = opos"
  by (induction ps arbitrary: acc pos) (auto split: result.splits option.splits if_splits)

lemma sequence_loop_chain:
  "sequence_loop ps opos acc pos = Done (Arr xs, pos') \<longleftrightarrow>
   (\<exists>rs. xs = acc @ rs \<and> chain ps pos rs pos')"
proof (induction ps arbitrary: acc pos)
  case Nil
  show ?case
    by (auto simp: neq_Nil_conv) (case_tac rs; simp)+
next
  case (Cons p ps)
  show ?case
  proof (cases "p pos")
    case OutOfFuel
    then show ?thesis by (auto) (case_tac rs; simp)
  next
    case RangeError
    then show ?thesis by (auto) (case_tac rs; simp)
  next
    case (Done a)
    obtain res q where a: "a = (res, q)" by (cases a)
    show ?thesis
    proof (cases "res = Null")
      case True
      with Done a show ?thesis by (auto) (case_tac rs; simp)
    next
      case False
      have "(\<exists>rs. xs = (acc @ [res]) @ rs \<and> chain ps q rs pos') \<longleftrightarrow>
            (\<exists>rs. xs = acc @ rs \<and> chain (p # ps) pos rs pos')"
      proof
        assume "\<exists>rs. xs = (acc @ [res]) @ rs \<and> chain ps q rs pos'"
        then obtain rs where "xs = (acc @ [res]) @ rs" "chain ps q rs pos'" by blast
        then have "xs = acc @ (res # rs) \<and> chain (p # ps) pos (res # rs) pos'"
          using Done a False by simp
        then show "\<exists>rs. xs = acc @ rs \<and> chain (p # ps) pos rs pos'" by blast
      next
        assume "\<exists>rs. xs = acc @ rs \<and> chain (p # ps) pos rs pos'"
        then obtain rs where rs: "xs = acc @ rs" "chain (p # ps) pos rs pos'" by blast
        then obtain r rs' where "rs = r # rs'" by (cases rs) auto
        with rs Done a show "\<exists>rs. xs = (acc @ [res]) @ rs \<and> chain ps q rs pos'"
          by auto
      qed
      with Done a False Cons.IH [of "acc @ [res]" q] show ?thesis by simp
    qed
  qed
qed

lemma sequence_Null: "sequence ps pos = Done (Null, pos') \<Longrightarrow> pos' = pos"
  unfolding sequence_def by (rule sequence_loop_Null)

lemma sequence_chain: "sequence ps pos = Done (Arr rs, pos') \<longleftrightarrow> chain ps pos rs pos'"
  unfolding sequence_def by (simp add: sequence_loop_chain)

lemma sequence_loop_cases:
  "sequence_loop ps opos acc pos = Done (r, pos') \<Longrightarrow> r = Null \<or> (\<exists>xs. r = Arr xs)"
  by (induction ps arbitrary: acc pos) (auto split: result.splits option.splits if_splits)

lemma sequence_cases:
  "sequence ps pos = Done (r, pos') \<Longrightarrow>
   (r = Null \<and> pos' = pos) \<or> (\<exists>rs. r = Arr rs \<and> chain ps pos rs pos')"
  using sequence_loop_cases [of ps pos "[]" pos r pos'] sequence_Null sequence_chain
  unfolding sequence_def by blast

lemma chain_length: "chain ps pos rs pos' \<Longrightarrow> length rs = length ps"
  by (induction ps pos rs pos' rule: chain.induct) auto

lemma chain_nonnull: "chain ps pos rs pos' \<Longrightarrow> Null \<notin> set rs"
  by (induction ps pos rs pos' rule: chain.induct) auto

lemma chain_forward: "chain ps pos rs pos' \<Longrightarrow> \<forall>p\<in>set ps. forward p \<Longrightarrow> pos \<le> pos'"
proof (induction ps pos rs pos' rule: chain.induct)
  case (2 p ps pos r rs pos')
  then obtain q where q: "p pos = Done (r, q)" "r \<noteq> Null" "chain ps q rs pos'" by auto
  with 2 have "q \<le> pos'" by simp
  moreover from 2(3) q have "pos \<le> q" by (auto simp: forward_def)
  ultimately show ?case by simp
qed auto

lemma forward_sequence: "\<forall>p\<in>set ps. forward p \<Longrightarrow> forward (sequence ps)"
  unfolding forward_def
  by (auto dest!: sequence_cases dest: chain_forward simp: forward_def)

lemma forward_choice: "\<forall>p\<in>set ps. forward p \<Longrightarrow> forward (choice ps)"
proof (induction ps)
  case Nil
  show ?case by (simp add: forward_def)
next
  case (Cons p ps)
  then have p: "forward p" and ps: "forward (choice ps)" by simp_all
  show ?case
    unfolding forward_def
  proof (intro allI impI)
    fix pos r pos'
    assume a: "choice (p # ps) pos = Done (r, pos')"
    then obtain r1 q where pq: "p pos = Done (r1, q)" by (auto split: result.splits option.splits)
    show "if r = Null then pos' = pos else pos \<le> pos'"
    proof (cases "r1 = Null")
      case True
      with p pq have "q = pos" by (auto simp: forward_def)
      with a pq True have "choice ps pos = Done (r, pos')" by simp
      with ps show ?thesis by (auto simp: forward_def)
    next
      case False
      with a pq have "r = r1" "pos' = q" by simp_all
      with p pq False show ?thesis by (auto simp: forward_def)
    qed
  qed
qed

lemma nOrMore_while_forward:
  "forward p \<Longrightarrow> nOrMore_while fuel p acc parsed pos = Done (rs, pos') \<Longrightarrow> pos \<le> pos'"
proof (induction fuel arbitrary: acc parsed pos)
  case 0
  then show ?case by (auto split: if_splits)
next
  case (Suc fuel)
  show ?case
  proof (cases "parsed = Null")
    case True
    with Suc.prems show ?thesis by simp
  next
    case False
    with Suc.prems obtain parsed' q where
      pq: "p pos = Done (parsed', q)" and
      rest: "nOrMore_while fuel p (acc @ [parsed]) parsed' q = Done (rs, pos')"
      by (auto split: result.splits option.splits)
    from Suc.prems(1) pq have "pos \<le> q"
      by (auto simp: forward_def split: if_splits)
    moreover from Suc.IH [OF Suc.prems(1) rest] have "q \<le> pos'" .
    ultimately show ?thesis by simp
  qed
qed

lemma forward_nOrMore: "forward p \<Longrightarrow> forward (nOrMore fuel n p)"
  unfolding forward_def [of "nOrMore fuel n p"]
proof (intro allI impI)
  fix pos r pos'
  assume p: "forward p" and a: "nOrMore fuel n p pos = Done (r, pos')"
  from a obtain parsed pos1 result pos2 where
    1: "p pos = Done (parsed, pos1)" and
    2: "nOrMore_while fuel p [] parsed pos1 = Done (result, pos2)" and
    3: "(r, pos') = (if length result < n then (Null, pos) else (Arr result, pos2))"
    by (auto simp: nOrMore_def split: result.splits option.splits if_splits)
  from p 1 have "pos \<le> pos1" by (auto simp: forward_def split: if_splits)
  moreover from nOrMore_while_forward [OF p 2] have "pos1 \<le> pos2" .
  ultimately show "if r = Null then pos' = pos else pos \<le> pos'"
    using 3 by (auto split: if_splits)
qed

lemma nOrMore_Null: "nOrMore fuel n p pos = Done (Null, pos') \<Longrightarrow> pos' = pos"
  by (auto simp: nOrMore_def split: result.splits option.splits if_splits)


lemma forwardI:
  "(\<And>pos r pos'. p pos = Done (r, pos') \<Longrightarrow> (r = Null \<longrightarrow> pos' = pos) \<and> pos \<le> pos') \<Longrightarrow> forward p"
  unfolding forward_def by auto

lemma forwardD:
  "forward p \<Longrightarrow> p pos = Done (r, pos') \<Longrightarrow> (r = Null \<longrightarrow> pos' = pos) \<and> pos \<le> pos'"
  unfolding forward_def by (auto split: if_splits)

lemma chain_idx_nonnull:
  assumes "chain ps pos rs pos'" and "0 \<le> i" and "nat i < length ps"
  shows "idx (Arr rs) i \<noteq> Null"
proof -
  from assms have "nat i < length rs" by (simp add: chain_length)
  then have "rs ! nat i \<in> set rs" by simp
  with chain_nonnull [OF assms(1)] have "rs ! nat i \<noteq> Null" by metis
  with assms(2) \<open>nat i < length rs\<close> show ?thesis by simp
qed

subsection \<open>Every production keeps the cursor discipline\<close>

lemma forward_makeStringParser: "forward (makeStringParser s rule)"
  by (rule forwardI) (auto simp: makeStringParser_def split: if_splits)

lemma forward_makeRegexParser: "forward (makeRegexParser regex rule)"
  by (rule forwardI) (auto simp: makeRegexParser_def split: result.splits option.splits)

lemmas forward_tokens =
  forward_makeStringParser [of "''n''", folded tok_n_def]
  forward_makeStringParser [of "''i''", folded tok_i_def]
  forward_makeStringParser [of "''f''", folded tok_f_def]
  forward_makeStringParser [of "''t''", folded tok_t_def]
  forward_makeStringParser [of "''v''", folded tok_v_def]
  forward_makeStringParser [of "''w''", folded tok_w_def]
  forward_makeStringParser [of "''is''", folded tok_is_def]
  forward_makeStringParser [of "''is not''", folded tok_isnot_def]
  forward_makeStringParser [of "''!=''", folded tok_isnot_sign_def]
  forward_makeStringParser [of "''=''", folded tok_equal_def]
  forward_makeStringParser [of "''mod''", folded tok_mod_def]
  forward_makeStringParser [of "''%''", folded tok_percent_def]
  forward_makeStringParser [of "''not''", folded tok_not_def]
  forward_makeStringParser [of "''in''", folded tok_in_def]
  forward_makeStringParser [of "''within''", folded tok_within_def]
  forward_makeStringParser [of "''..''", folded tok_range_def]
  forward_makeStringParser [of "'',''", folded tok_comma_def]
  forward_makeStringParser [of "''or''", folded tok_or_def]
  forward_makeStringParser [of "''and''", folded tok_and_def]
  forward_makeRegexParser [of re_spaces, folded whitespace_def]
  forward_makeRegexParser [of re_digits, folded value_p_def]

lemma js_or_nonnull: "b \<noteq> Null \<Longrightarrow> js_or a b \<noteq> Null"
  by (cases a) (auto simp: js_or_def)

lemma js_and_nonnull: "a \<noteq> Null \<Longrightarrow> b \<noteq> Null \<Longrightarrow> js_and a b \<noteq> Null"
  by (auto simp: js_and_def)

lemma forward_operand_shape:
  assumes X: "\<And>pos. X pos = (case tok pos of OutOfFuel \<Rightarrow> OutOfFuel | RangeError \<Rightarrow> RangeError
                | Done (result, pos') \<Rightarrow> if result = Null then Done (result, pos') else Done (v, pos'))"
    and tok: "forward tok" and v: "v \<noteq> Null"
  shows "forward X"
proof (rule forwardI)
  fix pos r pos'
  assume a: "X pos = Done (r, pos')"
  then obtain result where t: "tok pos = Done (result, pos')"
    and r: "r = (if result = Null then result else v)"
    unfolding X by (auto split: result.splits option.splits if_splits)
  from forwardD [OF tok t] r v show "(r = Null \<longrightarrow> pos' = pos) \<and> pos \<le> pos'"
    by (auto split: if_splits)
qed

lemma forward_n_p: "forward (n_p rule number)"
  by (rule forward_operand_shape [OF n_p_def]) (simp_all add: forward_tokens)

lemma forward_i_p: "forward (i_p rule number)"
  by (rule forward_operand_shape [OF i_p_def]) (simp_all add: forward_tokens)

lemma forward_f_p: "forward (f_p rule number)"
  by (rule forward_operand_shape [OF f_p_def]) (simp_all add: forward_tokens)

lemma forward_t_p: "forward (t_p rule number)"
  by (rule forward_operand_shape [OF t_p_def]) (simp_all add: forward_tokens js_or_nonnull)

lemma forward_v_p: "forward (v_p rule number)"
  by (rule forward_operand_shape [OF v_p_def]) (simp_all add: forward_tokens)

lemma forward_w_p: "forward (w_p rule number)"
  by (rule forward_operand_shape [OF w_p_def]) (simp_all add: forward_tokens js_or_nonnull)

lemma forward_operand: "forward (operand rule number)"
  unfolding operand_def
  by (rule forward_choice)
     (simp add: forward_n_p forward_i_p forward_f_p forward_t_p forward_v_p forward_w_p)


lemma forward_sequence_shape:
  assumes X: "\<And>pos r pos'. X pos = Done (r, pos') \<Longrightarrow>
      \<exists>result. sequence ps pos = Done (result, pos') \<and> (result = Null \<longrightarrow> r = Null) \<and>
        (result \<noteq> Null \<longrightarrow> r = g result)"
    and ps: "\<forall>p\<in>set ps. forward p"
    and g: "\<And>pos rs pos'. chain ps pos rs pos' \<Longrightarrow> g (Arr rs) \<noteq> Null"
  shows "forward X"
proof (rule forwardI)
  fix pos r pos'
  assume "X pos = Done (r, pos')"
  from X [OF this] obtain result where seq: "sequence ps pos = Done (result, pos')"
    and n: "result = Null \<longrightarrow> r = Null" and a: "result \<noteq> Null \<longrightarrow> r = g result"
    by blast
  from sequence_cases [OF seq] show "(r = Null \<longrightarrow> pos' = pos) \<and> pos \<le> pos'"
  proof
    assume "result = Null \<and> pos' = pos"
    then show ?thesis by simp
  next
    assume "\<exists>rs. result = Arr rs \<and> chain ps pos rs pos'"
    then obtain rs where rs: "result = Arr rs" "chain ps pos rs pos'" by blast
    with a g [OF rs(2)] have "r \<noteq> Null" by simp
    moreover from chain_forward [OF rs(2) ps] have "pos \<le> pos'" .
    ultimately show ?thesis by simp
  qed
qed

lemma forward_mod_p: "forward (mod_p rule number)"
  apply (rule forward_sequence_shape [where
      ps = "[operand rule number, whitespace rule, choice [tok_mod rule, tok_percent rule],
             whitespace rule, value_p rule]"
      and g = "\<lambda>result. Num (js_rem (parseInt (idx result 0)) (parseInt (idx result 4)))"])
  subgoal unfolding mod_p_def by (auto split: result.splits option.splits if_splits)
  subgoal by (simp add: forward_operand forward_tokens forward_choice)
  subgoal by simp
  done

lemma forward_expression: "forward (expression rule number)"
  unfolding expression_def
  by (rule forward_choice) (simp add: forward_mod_p forward_operand)

lemma forward_not_p: "forward (not_p rule)"
  apply (rule forward_sequence_shape [where ps = "[whitespace rule, tok_not rule]"
      and g = "\<lambda>result. idx result 1"])
  subgoal unfolding not_p_def by (auto split: result.splits option.splits if_splits)
  subgoal by (simp add: forward_tokens)
  subgoal for pos rs pos' using chain_idx_nonnull [of _ pos rs pos' 1] by simp
  done

lemma forward_is_p: "forward (is_p rule number)"
  apply (rule forward_sequence_shape [where
      ps = "[expression rule number, whitespace rule, tok_is rule, whitespace rule, value_p rule]"
      and g = "\<lambda>result. Bool (strict_eq (idx result 0) (Num (parseInt (idx result 4))))"])
  subgoal unfolding is_p_def by (auto split: result.splits option.splits if_splits)
  subgoal by (simp add: forward_expression forward_tokens)
  subgoal by simp
  done

lemma forward_isnot: "forward (isnot rule number)"
  apply (rule forward_sequence_shape [where
      ps = "[expression rule number, whitespace rule, choice [tok_isnot rule, tok_isnot_sign rule],
             whitespace rule, value_p rule]"
      and g = "\<lambda>result. Bool (\<not> strict_eq (idx result 0) (Num (parseInt (idx result 4))))"])
  subgoal unfolding isnot_def by (auto split: result.splits option.splits if_splits)
  subgoal by (simp add: forward_expression forward_tokens forward_choice)
  subgoal by simp
  done

lemma forward_range_p: "forward (range_p rule)"
  apply (rule forward_sequence_shape [where
      ps = "[value_p rule, tok_range rule, value_p rule]"
      and g = "\<lambda>result. Arr (case range_loop (parseInt (idx result 0))
                                    (parseInt (idx result 2)) [] of Done array \<Rightarrow> array | _ \<Rightarrow> [])"])
  subgoal unfolding range_p_def by (auto simp: Let_def split: result.splits option.splits if_splits)
  subgoal by (simp add: forward_tokens)
  subgoal by simp
  done


lemma forward_rangeList_rangeTail:
  "forward (rangeList fuel rule) \<and> forward (rangeTail fuel rule)"
proof (induction fuel)
  case 0
  show ?case by (simp add: forward_def rangeList.simps rangeTail.simps)
next
  case (Suc fuel)
  have "forward (rangeList (Suc fuel) rule)"
    apply (rule forward_sequence_shape [where
        ps = "[choice [range_p rule, value_p rule], nOrMore fuel 0 (rangeTail fuel rule)]"
        and g = "\<lambda>result. Arr (if truthy (idx (idx result 1) 0)
                   then concat_val (concat_val [] (idx result 0)) (idx (idx result 1) 0)
                   else concat_val [] (idx result 0))"])
    subgoal by (auto simp: rangeList.simps Let_def split: result.splits option.splits if_splits)
    subgoal using Suc by (simp add: forward_range_p forward_tokens forward_choice forward_nOrMore)
    subgoal by simp
    done
  moreover have "forward (rangeTail (Suc fuel) rule)"
    apply (rule forward_sequence_shape [where ps = "[tok_comma rule, rangeList fuel rule]"
        and g = "\<lambda>result. idx result 1"])
    subgoal by (auto simp: rangeTail.simps split: result.splits option.splits if_splits)
    subgoal using Suc by (simp add: forward_tokens)
    subgoal for pos rs pos' using chain_idx_nonnull [of _ pos rs pos' 1] by simp
    done
  ultimately show ?case by (rule conjI)
qed


lemma forward_rangeList: "forward (rangeList fuel rule)"
  using forward_rangeList_rangeTail by blast

lemma forward_rangeTail: "forward (rangeTail fuel rule)"
  using forward_rangeList_rangeTail by blast

lemma forward_not_in: "forward (not_in fuel rule number)"
  apply (rule forward_sequence_shape [where
      ps = "[expression rule number, whitespace rule, tok_isnot_sign rule, whitespace rule,
             rangeList fuel rule]"
      and g = "\<lambda>result. Bool (not_in_loop (elems (idx result 4)) (idx result 0))"])
  subgoal unfolding not_in_def by (auto split: result.splits option.splits if_splits)
  subgoal by (simp add: forward_expression forward_tokens forward_rangeList)
  subgoal by simp
  done

lemma forward_in_p: "forward (in_p fuel rule number)"
  apply (rule forward_sequence_shape [where
      ps = "[expression rule number, nOrMore fuel 0 (not_p rule), whitespace rule,
             choice [tok_in rule, tok_equal rule], whitespace rule, rangeList fuel rule]"
      and g = "\<lambda>result. Bool (in_loop (elems (idx result 5)) (idx result 0)
                             (idx (idx result 1) 0))"])
  subgoal unfolding in_p_def by (auto split: result.splits option.splits if_splits)
  subgoal by (simp add: forward_expression forward_tokens forward_rangeList forward_choice
        forward_nOrMore forward_not_p)
  subgoal by simp
  done

lemma forward_within_p: "forward (within_p fuel rule number)"
  apply (rule forward_sequence_shape [where
      ps = "[expression rule number, nOrMore fuel 0 (not_p rule), whitespace rule,
             tok_within rule, whitespace rule, rangeList fuel rule]"
      and g = "\<lambda>result. Bool (
          (js_ge (idx result 0) (parseInt (idx (idx result 5) 0)) \<and>
           js_lt (idx result 0)
             (parseInt (idx (idx result 5) (int (length (elems (idx result 5))) - 1))))
          \<noteq> strict_eq (idx (idx result 1) 0) (Str ''not''))"])
  subgoal unfolding within_p_def by (auto simp: Let_def split: result.splits option.splits if_splits)
  subgoal by (simp add: forward_expression forward_tokens forward_rangeList
        forward_nOrMore forward_not_p)
  subgoal by simp
  done

lemma forward_relation: "forward (relation fuel rule number)"
  unfolding relation_def
  by (rule forward_choice)
     (simp add: forward_is_p forward_not_in forward_isnot forward_in_p forward_within_p)

lemma sequence_truthy:
  "sequence ps pos = Done (result, pos') \<Longrightarrow> truthy result = (result \<noteq> Null)"
  by (auto dest: sequence_cases)

lemma forward_conditions:
  "forward (and_p fuel rule number) \<and> forward (or_p fuel rule number) \<and>
   forward (condition fuel rule number)"
proof (induction fuel)
  case 0
  show ?case by (simp add: forward_def and_p.simps or_p.simps condition.simps)
next
  case (Suc fuel)
  have "forward (and_p (Suc fuel) rule number)"
    apply (rule forward_sequence_shape [where
        ps = "[relation fuel rule number, whitespace rule, tok_and rule, whitespace rule,
               condition fuel rule number]"
        and g = "\<lambda>result. js_and (idx result 0) (idx result 4)"])
    subgoal by (auto simp: and_p.simps sequence_truthy split: result.splits option.splits if_splits)
    subgoal using Suc by (simp add: forward_relation forward_tokens)
    subgoal for pos rs pos'
      using chain_idx_nonnull [of _ pos rs pos' 0] chain_idx_nonnull [of _ pos rs pos' 4]
      by (simp add: js_and_nonnull)
    done
  moreover have "forward (or_p (Suc fuel) rule number)"
    apply (rule forward_sequence_shape [where
        ps = "[relation fuel rule number, whitespace rule, tok_or rule, whitespace rule,
               condition fuel rule number]"
        and g = "\<lambda>result. js_or (idx result 0) (idx result 4)"])
    subgoal by (auto simp: or_p.simps sequence_truthy split: result.splits option.splits if_splits)
    subgoal using Suc by (simp add: forward_relation forward_tokens)
    subgoal for pos rs pos'
      using chain_idx_nonnull [of _ pos rs pos' 4] by (simp add: js_or_nonnull)
    done
  moreover have "forward (condition (Suc fuel) rule number)"
  proof (rule forwardI)
    fix pos r pos'
    assume "condition (Suc fuel) rule number pos = Done (r, pos')"
    then obtain result where
      seq: "sequence [choice [and_p fuel rule number, or_p fuel rule number,
                              relation fuel rule number]] pos = Done (result, pos')"
      and r: "r = (if truthy result then idx result 0 else Bool False)"
      by (auto simp: condition.simps split: result.splits option.splits if_splits)
    have fw: "forward (sequence [choice [and_p fuel rule number, or_p fuel rule number,
                              relation fuel rule number]])"
      using Suc by (simp add: forward_sequence forward_choice forward_relation)
    from sequence_cases [OF seq] have "r \<noteq> Null"
    proof
      assume "result = Null \<and> pos' = pos"
      with r show ?thesis by simp
    next
      assume "\<exists>rs. result = Arr rs \<and> chain [choice [and_p fuel rule number,
          or_p fuel rule number, relation fuel rule number]] pos rs pos'"
      then obtain rs where rs: "result = Arr rs" "chain [choice [and_p fuel rule number,
          or_p fuel rule number, relation fuel rule number]] pos rs pos'" by blast
      from chain_idx_nonnull [OF rs(2), of 0] rs(1) r show ?thesis by simp
    qed
    with forwardD [OF fw seq] show "(r = Null \<longrightarrow> pos' = pos) \<and> pos \<le> pos'" by simp
  qed
  ultimately show ?case by blast
qed


subsection \<open>What a range list parses\<close>

text \<open>
  By induction on the fuel: a successful \<^verbatim>\<open>rangeList\<close> has consumed the text of a list of
  items and returns the concatenation of their contributions, and no further
  \<^verbatim>\<open>rangeTail\<close> starts where it stopped. The repetition \<^verbatim>\<open>nOrMore(0, rangeTail)\<close> therefore
  collects at most one result, the one \<^verbatim>\<open>result[1][0]\<close> reads.
\<close>

lemma chain_Nil [simp]: "chain [] pos rs pos' \<longleftrightarrow> rs = [] \<and> pos' = pos"
  by (cases rs) auto

lemma chain_Cons [simp]:
  "chain (p # ps) pos rs pos' \<longleftrightarrow>
   (\<exists>r rs' q. rs = r # rs' \<and> p pos = Done (r, q) \<and> r \<noteq> Null \<and> chain ps q rs' pos')"
  by (cases rs) auto

lemma text_at_append:
  "pos \<le> q \<Longrightarrow> q \<le> pos' \<Longrightarrow>
   text_at rule pos pos' = text_at rule pos q @ text_at rule q pos'"
proof -
  assume a: "pos \<le> q" "q \<le> pos'"
  have "take (pos' - pos) (drop pos rule) =
        take ((q - pos) + (pos' - q)) (drop pos rule)"
    using a by simp
  also have "\<dots> = take (q - pos) (drop pos rule) @ take (pos' - q) (drop (q - pos) (drop pos rule))"
    by (rule take_add)
  also have "drop (q - pos) (drop pos rule) = drop q rule"
    using a by simp
  finally show ?thesis by (simp add: text_at_def)
qed

lemma makeStringParser_success:
  "makeStringParser s rule pos = Done (r, pos') \<Longrightarrow> r \<noteq> Null \<Longrightarrow>
   r = Str s \<and> pos' = pos + length s \<and> text_at rule pos pos' = s"
  by (auto simp: makeStringParser_def substr_def text_at_def split: if_splits)

lemma value_p_success:
  "value_p rule pos = Done (r, pos') \<Longrightarrow> r \<noteq> Null \<Longrightarrow>
   \<exists>d. r = Str d \<and> digit_string d \<and> pos' = pos + length d \<and> text_at rule pos pos' = d"
proof -
  assume a: "value_p rule pos = Done (r, pos')" and n: "r \<noteq> Null"
  define d where "d = takeWhile is_digit (drop pos rule)"
  from a n have r: "r = Str d" "pos' = pos + length d" "d \<noteq> []"
    by (auto simp: value_p_def makeRegexParser_def re_digits_def d_def Let_def
        split: result.splits option.splits if_splits)
  have ds: "list_all is_digit d"
    unfolding d_def list_all_iff by (auto dest: set_takeWhileD)
  have "drop pos rule = d @ dropWhile is_digit (drop pos rule)"
    by (simp add: d_def)
  then have t: "take (length d) (drop pos rule) = d"
    by (metis append_eq_conv_conj)
  from r ds t show ?thesis by (auto simp: digit_string_def text_at_def)
qed


lemma is_digit_not_space: "is_digit c \<Longrightarrow> \<not> is_space c"
  by (auto simp: is_digit_def is_space_def)

lemma is_digit_not_sign: "is_digit c \<Longrightarrow> c \<noteq> CHR ''-'' \<and> c \<noteq> CHR ''+''"
  by (auto simp: is_digit_def)

lemma parseInt_digit_string:
  assumes "digit_string d"
  shows "parseInt (Str d) = round_double (of_int (parse_digits d))"
proof -
  from assms obtain c cs where d: "d = c # cs" and c: "is_digit c" and all: "list_all is_digit d"
    by (cases d) (auto simp: digit_string_def)
  have 1: "dropWhile is_space d = d"
    using d c by (simp add: is_digit_not_space)
  have 2: "takeWhile is_digit d = d"
    using all by (simp add: list_all_iff)
  have 3: "d \<noteq> []" "hd d \<noteq> CHR ''-''" "hd d \<noteq> CHR ''+''"
    using d is_digit_not_sign [OF c] by simp_all
  show ?thesis
    unfolding parseInt_def parseInt_str_def to_string.simps Let_def 1
    by (simp add: 2 3)
qed

subsection \<open>Rounding\<close>

text \<open>
  Up to \<open>2^53\<close> every integer is a double: rounding leaves it as it is, \<^verbatim>\<open>parseInt\<close> reads it
  exactly and \<^verbatim>\<open>i + 1\<close> is the next integer.
\<close>

lemma round_half_even_of_int: "round_half_even (of_int n) = n"
  by (simp add: round_half_even_def)

lemma bit_length_bounds:
  "0 < n \<Longrightarrow> 2 ^ (bit_length n - 1) \<le> n \<and> n < 2 ^ bit_length n"
proof (induction n rule: bit_length.induct)
  case (1 n)
  have len: "bit_length n = Suc (bit_length (n div 2))"
    using 1(2) by (subst bit_length.simps) simp
  show ?case
  proof (cases "n = 1")
    case True
    have "bit_length (0::int) = 0" by (subst bit_length.simps) simp
    with True len show ?thesis by simp
  next
    case False
    with 1(2) have pos: "0 < n div 2" by simp
    with 1 have IH: "2 ^ (bit_length (n div 2) - 1) \<le> n div 2"
      "n div 2 < 2 ^ bit_length (n div 2)" by simp_all
    have "bit_length (n div 2) \<noteq> 0"
      using pos by (subst bit_length.simps) simp
    then obtain m where m: "bit_length (n div 2) = Suc m"
      by (cases "bit_length (n div 2)") auto
    from IH(1) m have "2 * 2 ^ m \<le> 2 * (n div 2)" by simp
    also have "\<dots> \<le> n" by simp
    finally have lo: "(2::int) ^ Suc m \<le> n" by simp
    from IH(2) have "n div 2 + 1 \<le> 2 ^ Suc m" using m by simp
    then have "2 * (n div 2) + 2 \<le> 2 * 2 ^ Suc m" by simp
    moreover have "n < 2 * (n div 2) + 2" by linarith
    ultimately have hi: "n < 2 ^ Suc (Suc m)" by simp
    from lo hi len m show ?thesis by simp
  qed
qed

lemma bit_length_one: "bit_length 1 = 1"
  by (subst bit_length.simps, subst bit_length.simps) simp

lemma bit_length_pos: "0 < n \<Longrightarrow> 0 < bit_length n"
  by (subst bit_length.simps) simp

lemma bin_exponent_of_int:
  assumes "0 < n"
  shows "bin_exponent (of_int n) = int (bit_length n) - 1"
proof -
  from bit_length_pos [OF assms] obtain m where m: "bit_length n = Suc m"
    by (cases "bit_length n") auto
  from bit_length_bounds [OF assms] m have "(2::int) ^ m \<le> n" by simp
  then have "(of_int (2 ^ m) :: rat) \<le> of_int n" by (simp only: of_int_le_iff)
  then have "\<not> (of_int n :: rat) < 2 ^ m" by simp
  then show ?thesis
    by (simp add: bin_exponent_def bit_length_one m pow2_def)
qed

lemma round_pos_exact:
  assumes "0 < n" and "n \<le> 9007199254740992"
  shows "round_pos (of_int n) = Fin (of_int n)"
proof -
  from bit_length_pos [OF assms(1)] obtain m where m: "bit_length n = Suc m"
    by (cases "bit_length n") auto
  from bit_length_bounds [OF assms(1)] m have lo: "(2::int) ^ m \<le> n" by simp
  have m53: "m \<le> 53"
  proof (rule ccontr)
    assume "\<not> m \<le> 53"
    then have "54 \<le> m" by simp
    then have "(2::int) ^ 54 \<le> 2 ^ m" by (rule power_increasing) simp
    with lo assms(2) show False by simp
  qed
  have e: "bin_exponent (of_int n) = int m"
    using bin_exponent_of_int [OF assms(1)] m by simp
  show ?thesis
  proof (cases "m = 53")
    case True
    with lo assms(2) have "n = 9007199254740992" by simp
    moreover have "round_pos 9007199254740992 = Fin 9007199254740992" by code_simp
    ultimately show ?thesis by simp
  next
    case False
    with m53 have lt: "m \<le> 52" by simp
    define k where "k = 52 - m"
    have q: "pow2 (int m - 52) = 1 / 2 ^ k"
      using lt by (auto simp: pow2_def k_def nat_diff_distrib')
    have "(of_int n :: rat) / (1 / 2 ^ k) = of_int (n * 2 ^ k)" by simp
    then have r: "round_half_even (of_int n / pow2 (int m - 52)) = n * 2 ^ k"
      unfolding q by (simp only: round_half_even_of_int)
    have "max (int m) (- 1022) = int m" by simp
    then show ?thesis
      using lt by (simp add: round_pos_def e Let_def r) (simp add: q)
  qed
qed

lemma round_double_exact:
  "0 \<le> n \<Longrightarrow> n \<le> 9007199254740992 \<Longrightarrow> round_double (of_int n) = Fin (of_int n)"
  by (cases "n = 0") (simp_all add: round_double_def round_pos_exact)

lemma parse_digits_nonneg: "list_all is_digit d \<Longrightarrow> 0 \<le> parse_digits d"
proof -
  have "list_all is_digit d \<Longrightarrow> 0 \<le> acc \<Longrightarrow>
        0 \<le> foldl (\<lambda>acc c. acc * 10 + digit_val c) acc d" for acc
  proof (induction d arbitrary: acc)
    case Nil
    then show ?case by simp
  next
    case (Cons c d)
    from Cons.prems have c: "is_digit c" by simp
    have "(of_char c :: int) = int (of_char c)" by (simp add: of_nat_of_char)
    moreover from c have "48 \<le> int (of_char c)"
      unfolding is_digit_def by linarith
    ultimately have "0 \<le> digit_val c" by (simp only: digit_val_def)
    with Cons.prems have "0 \<le> acc * 10 + digit_val c" by simp
    with Cons show ?case by simp
  qed
  then show "list_all is_digit d \<Longrightarrow> 0 \<le> parse_digits d"
    unfolding parse_digits_def by simp
qed


lemma js_add_one_exact:
  "0 \<le> i \<Longrightarrow> i < 9007199254740992 \<Longrightarrow>
   js_add (Fin (of_int i)) (Fin 1) = Fin (of_int (i + 1))"
  using round_double_exact [of "i + 1"] by (simp add: js_add_def)

subsection \<open>Rounding from \<open>2^53\<close> on\<close>

text \<open>
  From \<open>2^53\<close> on the doubles are the integers \<open>M * 2^s\<close> with a significand \<open>M\<close> of 53
  binary digits. Rounding an integer keeps the order. Adding one to such a double gives
  the same double again, except for an odd significand at \<open>s = 1\<close>, where the tie goes to
  the next double, whose significand is even.
\<close>

lemma round_half_even_cases:
  "round_half_even r = \<lfloor>r\<rfloor> \<or> round_half_even r = \<lfloor>r\<rfloor> + 1"
  by (simp add: round_half_even_def Let_def)

lemma round_half_even_low: "r - of_int \<lfloor>r\<rfloor> < 1 / 2 \<Longrightarrow> round_half_even r = \<lfloor>r\<rfloor>"
  by (simp add: round_half_even_def Let_def)

lemma round_half_even_high: "1 / 2 < r - of_int \<lfloor>r\<rfloor> \<Longrightarrow> round_half_even r = \<lfloor>r\<rfloor> + 1"
  by (simp add: round_half_even_def Let_def)

lemma round_half_even_mono:
  assumes "x \<le> y"
  shows "round_half_even x \<le> round_half_even y"
proof (cases "\<lfloor>x\<rfloor> < \<lfloor>y\<rfloor>")
  case True
  from round_half_even_cases [of x] have "round_half_even x \<le> \<lfloor>x\<rfloor> + 1" by auto
  also from True have "\<dots> \<le> \<lfloor>y\<rfloor>" by simp
  also from round_half_even_cases [of y] have "\<dots> \<le> round_half_even y" by auto
  finally show ?thesis .
next
  case False
  moreover from assms have "\<lfloor>x\<rfloor> \<le> \<lfloor>y\<rfloor>" by (rule floor_mono)
  ultimately have f: "\<lfloor>y\<rfloor> = \<lfloor>x\<rfloor>" by simp
  with assms have d: "x - of_int \<lfloor>x\<rfloor> \<le> y - of_int \<lfloor>y\<rfloor>" by simp
  show ?thesis
    using d f by (auto simp: round_half_even_def Let_def)
qed

lemma round_half_even_ge: "of_int k \<le> x \<Longrightarrow> k \<le> round_half_even x"
  using round_half_even_mono [of "of_int k" x] by (simp add: round_half_even_of_int)

lemma round_half_even_le: "x \<le> of_int k \<Longrightarrow> round_half_even x \<le> k"
  using round_half_even_mono [of x "of_int k"] by (simp add: round_half_even_of_int)

lemma bit_length_unique:
  assumes "2 ^ k \<le> n" and "n < 2 ^ Suc k"
  shows "bit_length n = Suc k"
proof -
  have "(0::int) < 2 ^ k" by simp
  with assms(1) have pos: "0 < n" by linarith
  from bit_length_pos [OF pos] obtain m where m: "bit_length n = Suc m"
    by (cases "bit_length n") auto
  from bit_length_bounds [OF pos] m have b: "(2::int) ^ m \<le> n" "n < 2 ^ Suc m" by simp_all
  have "m = k"
  proof (rule ccontr)
    assume "m \<noteq> k"
    then consider "Suc m \<le> k" | "Suc k \<le> m" by linarith
    then show False
    proof cases
      case 1
      then have "(2::int) ^ Suc m \<le> 2 ^ k" by (intro power_increasing) simp_all
      with b(2) assms(1) show False by linarith
    next
      case 2
      then have "(2::int) ^ Suc k \<le> 2 ^ m" by (intro power_increasing) simp_all
      with b(1) assms(2) show False by linarith
    qed
  qed
  with m show ?thesis by simp
qed

lemma bit_length_mono:
  assumes "0 < a" and "a \<le> b"
  shows "bit_length a \<le> bit_length b"
proof (rule ccontr)
  assume "\<not> bit_length a \<le> bit_length b"
  then have lt: "bit_length b \<le> bit_length a - 1" by simp
  from assms have pb: "0 < b" by simp
  from bit_length_bounds [OF pb] have "b < 2 ^ bit_length b" by simp
  also from lt have "(2::int) ^ bit_length b \<le> 2 ^ (bit_length a - 1)"
    by (intro power_increasing) simp_all
  also from bit_length_bounds [OF assms(1)] have "\<dots> \<le> a" by simp
  finally show False using assms(2) by simp
qed

lemma bit_length_big:
  assumes "9007199254740992 \<le> n"
  shows "54 \<le> bit_length n"
proof (rule ccontr)
  assume "\<not> 54 \<le> bit_length n"
  then have "bit_length n \<le> 53" by simp
  then have "(2::int) ^ bit_length n \<le> 2 ^ 53" by (intro power_increasing) simp_all
  moreover from assms have "0 < n" by simp
  from bit_length_bounds [OF this] have "n < 2 ^ bit_length n" by simp
  ultimately show False using assms by simp
qed

text \<open>The double nearest to an integer from \<open>2^53\<close> on.\<close>

lemma round_double_big:
  assumes "9007199254740992 \<le> n"
  shows "round_double (of_int n) =
    (if 1025 \<le> bit_length n \<or>
        (bit_length n = 1024 \<and>
         round_half_even (of_int n / 2 ^ (bit_length n - 53)) = 9007199254740992)
     then PInf
     else Fin (of_int (round_half_even (of_int n / 2 ^ (bit_length n - 53)))
                        * 2 ^ (bit_length n - 53)))"
proof -
  from assms have pos: "0 < n" by simp
  from bit_length_big [OF assms] have L: "54 \<le> bit_length n" .
  have e: "bin_exponent (of_int n) = int (bit_length n) - 1"
    using pos by (rule bin_exponent_of_int)
  have mx: "max (int (bit_length n) - 1) (- 1022) = int (bit_length n) - 1"
    using L by simp
  have q: "pow2 (int (bit_length n) - 1 - 52) = 2 ^ (bit_length n - 53)"
    using L by (simp add: pow2_def nat_diff_distrib')
  have c1: "(1024 \<le> int (bit_length n) - 1) = (1025 \<le> bit_length n)" by linarith
  have c2: "(int (bit_length n) - 1 = 1023) = (bit_length n = 1024)" by linarith
  have rp: "round_pos (of_int n) =
    (if 1025 \<le> bit_length n \<or>
        (bit_length n = 1024 \<and>
         round_half_even (of_int n / 2 ^ (bit_length n - 53)) = 9007199254740992)
     then PInf
     else Fin (of_int (round_half_even (of_int n / 2 ^ (bit_length n - 53)))
                        * 2 ^ (bit_length n - 53)))"
    unfolding round_pos_def e mx Let_def q c1 c2 by simp
  have "round_double (of_int n) = round_pos (of_int n)"
    using pos by (simp add: round_double_def)
  then show ?thesis unfolding rp .
qed

lemma significand_bounds:
  assumes "9007199254740992 \<le> n"
  shows "4503599627370496 \<le> round_half_even (of_int n / 2 ^ (bit_length n - 53))"
    and "round_half_even (of_int n / 2 ^ (bit_length n - 53)) \<le> 9007199254740992"
proof -
  from assms have pos: "0 < n" by simp
  from bit_length_big [OF assms] have L: "54 \<le> bit_length n" .
  define s where "s = bit_length n - 53"
  from L have Ls: "bit_length n = s + 53" "bit_length n - 1 = s + 52" by (simp_all add: s_def)
  from bit_length_bounds [OF pos] have "2 ^ (bit_length n - 1) \<le> n" "n < 2 ^ bit_length n"
    by simp_all
  moreover have "s + 53 - 1 = s + 52" by simp
  ultimately have lo: "2 ^ (s + 52) \<le> n" and hi: "n < 2 ^ (s + 53)"
    unfolding Ls(1) by (simp_all only:)
  from lo have "(of_int (2 ^ 52 * 2 ^ s) :: rat) \<le> of_int n"
    by (simp only: of_int_le_iff) (simp add: power_add mult.commute)
  then have "(of_int (2 ^ 52) :: rat) \<le> of_int n / 2 ^ s"
    by (simp add: pos_le_divide_eq)
  from round_half_even_ge [OF this]
  show "4503599627370496 \<le> round_half_even (of_int n / 2 ^ (bit_length n - 53))"
    by (simp add: s_def)
  from hi have "(of_int n :: rat) \<le> of_int (2 ^ 53 * 2 ^ s)"
    by (simp only: of_int_le_iff) (simp add: power_add mult.commute)
  then have "(of_int n :: rat) / 2 ^ s \<le> of_int (2 ^ 53)"
    by (simp add: pos_divide_le_eq)
  from round_half_even_le [OF this]
  show "round_half_even (of_int n / 2 ^ (bit_length n - 53)) \<le> 9007199254740992"
    by (simp add: s_def)
qed

text \<open>From \<open>2^53\<close> on, a double is a significand of 53 binary digits times a power of two.\<close>

lemma round_double_big_form:
  assumes "9007199254740992 \<le> n"
  shows "round_double (of_int n) = PInf \<or>
    (\<exists>M s. round_double (of_int n) = Fin (of_int (M * 2 ^ s)) \<and>
       4503599627370496 \<le> M \<and> M < 9007199254740992 \<and> 1 \<le> s \<and> s \<le> 971 \<and>
       bit_length n \<le> s + 53)"
proof -
  define s0 where "s0 = bit_length n - 53"
  define m where "m = round_half_even (of_int n / 2 ^ s0)"
  from bit_length_big [OF assms] have L: "54 \<le> bit_length n" .
  from significand_bounds [OF assms] have mb: "4503599627370496 \<le> m" "m \<le> 9007199254740992"
    by (simp_all add: m_def s0_def)
  note R = round_double_big [OF assms, folded s0_def, folded m_def]
  show ?thesis
  proof (cases "1025 \<le> bit_length n \<or> (bit_length n = 1024 \<and> m = 9007199254740992)")
    case True
    with R show ?thesis by simp
  next
    case False
    with R have r: "round_double (of_int n) = Fin (of_int (m * 2 ^ s0))" by simp
    from False have "bit_length n \<le> 1024" by auto
    with L have s0: "1 \<le> s0" "s0 \<le> 971" "bit_length n = s0 + 53"
      by (simp_all add: s0_def)
    show ?thesis
    proof (cases "m = 9007199254740992")
      case True
      with False have "bit_length n \<noteq> 1024" by auto
      with s0 have "s0 \<le> 970" by simp
      moreover from True have "m * 2 ^ s0 = 4503599627370496 * 2 ^ Suc s0" by simp
      ultimately have "round_double (of_int n) = Fin (of_int (4503599627370496 * 2 ^ Suc s0)) \<and>
        (4503599627370496::int) \<le> 4503599627370496 \<and> (4503599627370496::int) < 9007199254740992 \<and>
        1 \<le> Suc s0 \<and> Suc s0 \<le> 971 \<and> bit_length n \<le> Suc s0 + 53"
        using r s0 by simp
      then show ?thesis by blast
    next
      case False
      with mb r s0 have "round_double (of_int n) = Fin (of_int (m * 2 ^ s0)) \<and>
        4503599627370496 \<le> m \<and> m < 9007199254740992 \<and> 1 \<le> s0 \<and> s0 \<le> 971 \<and>
        bit_length n \<le> s0 + 53" by simp
      then show ?thesis by blast
    qed
  qed
qed

lemma double_bit_length:
  assumes "4503599627370496 \<le> M" and "M < 9007199254740992"
    and "M * 2 ^ s \<le> y" and "y < M * 2 ^ s + 2 ^ s"
  shows "bit_length y = s + 53"
proof -
  have "(2::int) ^ (s + 52) = 4503599627370496 * 2 ^ s" by (simp add: power_add)
  also have "\<dots> \<le> M * 2 ^ s" using assms(1) by simp
  finally have lo: "2 ^ (s + 52) \<le> y" using assms(3) by simp
  have "y < (M + 1) * 2 ^ s" using assms(4) by (simp add: algebra_simps)
  also have "\<dots> \<le> 9007199254740992 * 2 ^ s"
    using assms(2) by (intro mult_right_mono) simp_all
  also have "\<dots> = 2 ^ Suc (s + 52)" by (simp add: power_add)
  finally have hi: "y < 2 ^ Suc (s + 52)" .
  from bit_length_unique [OF lo hi] show ?thesis by simp
qed

lemma round_double_near:
  assumes M: "4503599627370496 \<le> M" "M < 9007199254740992"
    and s: "1 \<le> s" "s \<le> 971"
    and d: "0 \<le> d" "d < 2 ^ s" and edge: "s \<le> 970 \<or> 2 * d < 2 ^ s"
  shows "round_double (of_int (M * 2 ^ s + d))
     = Fin (of_int (round_half_even (of_int M + of_int d / 2 ^ s) * 2 ^ s))"
proof -
  let ?y = "M * 2 ^ s + d"
  have L: "bit_length ?y = s + 53"
    using M d by (intro double_bit_length [of M]) simp_all
  have big: "9007199254740992 \<le> ?y"
  proof -
    have "(9007199254740992::int) = 4503599627370496 * 2 ^ 1" by simp
    also have "\<dots> \<le> 4503599627370496 * 2 ^ s"
      using s(1) by (intro mult_left_mono power_increasing) simp_all
    also have "\<dots> \<le> M * 2 ^ s" using M(1) by simp
    finally show ?thesis using d(1) by simp
  qed
  have q: "(of_int ?y :: rat) / 2 ^ s = of_int M + of_int d / 2 ^ s"
    by (simp add: field_simps)
  have fl: "\<lfloor>(of_int M :: rat) + of_int d / 2 ^ s\<rfloor> = M"
  proof -
    have "0 \<le> (of_int d :: rat) / 2 ^ s" using d(1) by simp
    moreover have "(of_int d :: rat) < 2 ^ s"
      using d(2) by (metis of_int_less_iff of_int_numeral of_int_power)
    then have "(of_int d :: rat) / 2 ^ s < 1" by simp
    ultimately show ?thesis by (simp add: floor_unique)
  qed
  have le: "round_half_even (of_int M + of_int d / 2 ^ s) \<le> M + 1"
    using round_half_even_cases [of "of_int M + of_int d / 2 ^ s"] fl by auto
  have n1: "\<not> 1025 \<le> s + 53" using s(2) by simp
  have n2: "round_half_even (of_int M + of_int d / 2 ^ s) \<noteq> 9007199254740992"
    if "s + 53 = 1024"
  proof -
    from that edge have "2 * d < 2 ^ s" by simp
    then have "(of_int (2 * d) :: rat) < of_int (2 ^ s)" by (simp only: of_int_less_iff)
    then have "(of_int d :: rat) / 2 ^ s < 1 / 2" by (simp add: field_simps)
    then have "round_half_even (of_int M + of_int d / 2 ^ s) = M"
      using round_half_even_low [of "of_int M + of_int d / 2 ^ s"] fl by simp
    with M(2) show ?thesis by simp
  qed
  have "round_double (of_int ?y) =
    (if 1025 \<le> s + 53 \<or>
        (s + 53 = 1024 \<and>
         round_half_even (of_int M + of_int d / 2 ^ s) = 9007199254740992)
     then PInf
     else Fin (of_int (round_half_even (of_int M + of_int d / 2 ^ s)) * 2 ^ s))"
    using round_double_big [OF big] unfolding L add_diff_cancel_right' q .
  also have "\<dots> = Fin (of_int (round_half_even (of_int M + of_int d / 2 ^ s)) * 2 ^ s)"
    using n1 n2 by (simp only: if_False simp_thms split: if_splits) blast
  finally show ?thesis by simp
qed

lemma double_exact:
  assumes "4503599627370496 \<le> M" "M < 9007199254740992" "1 \<le> s" "s \<le> 971"
  shows "round_double (of_int (M * 2 ^ s)) = Fin (of_int (M * 2 ^ s))"
  using round_double_near [OF assms, of 0] by (simp add: round_half_even_of_int)

lemma double_stuck:
  assumes "4503599627370496 \<le> M" "M < 9007199254740992" "2 \<le> s" "s \<le> 971"
  shows "js_add (Fin (of_int (M * 2 ^ s))) (Fin 1) = Fin (of_int (M * 2 ^ s))"
proof -
  have "(2::int) ^ 1 < 2 ^ s" by (rule power_strict_increasing) (use assms(3) in simp_all)
  then have two: "(2::int) * 1 < 2 ^ s" and one: "(1::int) < 2 ^ s" by simp_all
  have "(2::rat) ^ 1 < 2 ^ s" by (rule power_strict_increasing) (use assms(3) in simp_all)
  then have h: "(1::rat) / 2 ^ s < 1 / 2" by (simp add: field_simps)
  then have low: "((of_int M :: rat) + of_int 1 / 2 ^ s) - of_int M < 1 / 2" by simp
  have fl: "\<lfloor>(of_int M :: rat) + of_int 1 / 2 ^ s\<rfloor> = M"
  proof -
    from h have "(1::rat) / 2 ^ s < 1" by linarith
    then show ?thesis by (simp add: floor_unique)
  qed
  have r: "round_half_even (of_int M + of_int 1 / 2 ^ s) = M"
    using round_half_even_low [of "of_int M + of_int 1 / 2 ^ s"] low fl by simp
  have "round_double (of_int (M * 2 ^ s + 1)) = Fin (of_int (M * 2 ^ s))"
    using round_double_near [OF assms(1,2) _ assms(4), of 1] assms(3) one two
    by (simp only: r) simp
  then show ?thesis by (simp add: js_add_def)
qed

lemma double_tie:
  assumes "4503599627370496 \<le> M" "M < 9007199254740992"
  shows "round_double (of_int (2 * M + 1)) = Fin (of_int (2 * (if even M then M else M + 1)))"
proof -
  have fl: "\<lfloor>(of_int M :: rat) + 1 / 2\<rfloor> = M" by (simp add: floor_unique)
  have r: "round_half_even (of_int M + 1 / 2) = (if even M then M else M + 1)"
    by (simp add: round_half_even_def Let_def fl)
  have "round_double (of_int (M * 2 ^ 1 + 1))
     = Fin (of_int (round_half_even (of_int M + of_int 1 / 2 ^ 1) * 2 ^ 1))"
    by (rule round_double_near [OF assms]) simp_all
  then show ?thesis using r by (simp add: mult.commute)
qed

lemma double_even:
  assumes "4503599627370496 \<le> M" "M < 9007199254740992"
  shows "round_double (of_int (2 * M)) = Fin (of_int (2 * M))"
  using double_exact [OF assms, of 1] by (simp add: mult.commute)

text \<open>Rounding an integer keeps the order.\<close>

lemma round_double_big_bounds:
  assumes "9007199254740992 \<le> n"
  shows "(round_double (of_int n) = PInf \<and> 1024 \<le> bit_length n) \<or>
    (\<exists>y. round_double (of_int n) = Fin y \<and> 2 ^ (bit_length n - 1) \<le> y \<and> y \<le> 2 ^ bit_length n \<and>
         bit_length n \<le> 1024 \<and>
         y = of_int (round_half_even (of_int n / 2 ^ (bit_length n - 53))) * 2 ^ (bit_length n - 53))"
proof -
  define s where "s = bit_length n - 53"
  define m where "m = round_half_even (of_int n / 2 ^ s)"
  from bit_length_big [OF assms] have L: "bit_length n = s + 53" "bit_length n - 1 = s + 52"
    by (simp_all add: s_def)
  from significand_bounds [OF assms] have mb: "4503599627370496 \<le> m" "m \<le> 9007199254740992"
    by (simp_all add: m_def s_def)
  note R = round_double_big [OF assms, folded s_def, folded m_def]
  show ?thesis
  proof (cases "1025 \<le> bit_length n \<or> (bit_length n = 1024 \<and> m = 9007199254740992)")
    case True
    with R show ?thesis by auto
  next
    case False
    with R have r: "round_double (of_int n) = Fin (of_int m * 2 ^ s)" by simp
    from False have le: "bit_length n \<le> 1024" by auto
    have "(of_int (4503599627370496::int) :: rat) \<le> of_int m"
      using mb(1) by (simp only: of_int_le_iff)
    then have "(4503599627370496 :: rat) * 2 ^ s \<le> of_int m * 2 ^ s"
      by (intro mult_right_mono) simp_all
    then have lo: "(2::rat) ^ (s + 52) \<le> of_int m * 2 ^ s" by (simp add: power_add)
    have "(of_int m :: rat) \<le> of_int (9007199254740992::int)"
      using mb(2) by (simp only: of_int_le_iff)
    then have "(of_int m :: rat) * 2 ^ s \<le> 9007199254740992 * 2 ^ s"
      by (intro mult_right_mono) simp_all
    then have hi: "(of_int m :: rat) * 2 ^ s \<le> 2 ^ (s + 53)" by (simp add: power_add)
    from le L(1) have le': "s + 53 \<le> 1024" by simp
    have "\<exists>y. round_double (of_int n) = Fin y \<and> 2 ^ (s + 52) \<le> y \<and> y \<le> 2 ^ (s + 53) \<and>
         s + 53 \<le> 1024 \<and> y = of_int m * 2 ^ s"
      using r lo hi le' by blast
    then show ?thesis
      unfolding s_def [symmetric] m_def [symmetric] L(2) unfolding L(1) by blast
  qed
qed

lemma num_le_simps [simp]:
  "num_le (Fin a) (Fin b) = (a \<le> b)" "num_le (Fin a) PInf" "num_le PInf PInf"
  "\<not> num_le PInf (Fin b)"
  by (simp_all add: num_le_def)

lemma round_double_ge_big:
  assumes "9007199254740992 \<le> n"
  shows "num_le (Fin 9007199254740992) (round_double (of_int n))"
proof -
  from bit_length_big [OF assms] have "53 \<le> bit_length n - 1" by simp
  then have h: "(2::rat) ^ 53 \<le> 2 ^ (bit_length n - 1)" by (rule power_increasing) simp
  from round_double_big_bounds [OF assms] show ?thesis
  proof
    assume "round_double (of_int n) = PInf \<and> 1024 \<le> bit_length n"
    then show ?thesis by simp
  next
    assume "\<exists>y. round_double (of_int n) = Fin y \<and> 2 ^ (bit_length n - 1) \<le> y \<and>
      y \<le> 2 ^ bit_length n \<and> bit_length n \<le> 1024 \<and>
      y = of_int (round_half_even (of_int n / 2 ^ (bit_length n - 53))) * 2 ^ (bit_length n - 53)"
    then obtain y where y: "round_double (of_int n) = Fin y" "2 ^ (bit_length n - 1) \<le> y"
      by blast
    from h y(2) have "(9007199254740992::rat) \<le> y" by simp
    with y(1) show ?thesis by simp
  qed
qed

lemma round_double_mono:
  assumes "0 \<le> a" and "a \<le> b"
  shows "num_le (round_double (of_int a)) (round_double (of_int b))"
proof -
  consider "b \<le> 9007199254740992" | "a \<le> 9007199254740992" "9007199254740992 < b"
    | "9007199254740992 < a" by linarith
  then show ?thesis
  proof cases
    case 1
    with assms show ?thesis by (simp add: round_double_exact)
  next
    case 2
    with assms have ra: "round_double (of_int a) = Fin (of_int a)"
      by (simp add: round_double_exact)
    from 2 have "num_le (Fin 9007199254740992) (round_double (of_int b))"
      by (intro round_double_ge_big) simp
    moreover have "(of_int a :: rat) \<le> 9007199254740992"
      using 2(1) by (metis of_int_le_iff of_int_numeral)
    ultimately show ?thesis
      unfolding ra by (cases "round_double (of_int b)") (auto simp: num_le_def)
  next
    case 3
    with assms have ba: "9007199254740992 \<le> a" and bb: "9007199254740992 \<le> b" by simp_all
    from 3 assms have L: "bit_length a \<le> bit_length b" by (intro bit_length_mono) simp_all
    note Ba = round_double_big_bounds [OF ba] and Bb = round_double_big_bounds [OF bb]
    show ?thesis
    proof (cases "round_double (of_int b) = PInf")
      case True
      with Ba show ?thesis by auto
    next
      case False
      with Bb obtain yb where yb: "round_double (of_int b) = Fin yb"
        "2 ^ (bit_length b - 1) \<le> yb" "bit_length b \<le> 1024"
        "yb = of_int (round_half_even (of_int b / 2 ^ (bit_length b - 53)))
              * 2 ^ (bit_length b - 53)"
        by auto
      show ?thesis
      proof (cases "bit_length a = bit_length b")
        case eq: True
        have q: "(of_int a :: rat) / 2 ^ (bit_length b - 53) \<le> of_int b / 2 ^ (bit_length b - 53)"
          using assms(2) by (simp add: divide_right_mono)
        from round_half_even_mono [OF q]
        have m: "round_half_even (of_int a / 2 ^ (bit_length b - 53))
            \<le> round_half_even (of_int b / 2 ^ (bit_length b - 53))" .
        have na: "round_double (of_int a) \<noteq> PInf"
        proof
          assume "round_double (of_int a) = PInf"
          with round_double_big [OF ba] yb(3) eq
          have "bit_length b = 1024"
            "round_half_even (of_int a / 2 ^ (bit_length b - 53)) = 9007199254740992"
            by (auto split: if_splits)
          with m significand_bounds(2) [OF bb]
          have "round_half_even (of_int b / 2 ^ (bit_length b - 53)) = 9007199254740992"
            by simp
          with round_double_big [OF bb] \<open>bit_length b = 1024\<close> False show False by simp
        qed
        with Ba eq have ya: "round_double (of_int a)
            = Fin (of_int (round_half_even (of_int a / 2 ^ (bit_length b - 53)))
                   * 2 ^ (bit_length b - 53))"
          by auto
        have "(of_int (round_half_even (of_int a / 2 ^ (bit_length b - 53))) :: rat)
            \<le> of_int (round_half_even (of_int b / 2 ^ (bit_length b - 53)))"
          using m by (simp only: of_int_le_iff)
        then have "(of_int (round_half_even (of_int a / 2 ^ (bit_length b - 53))) :: rat)
              * 2 ^ (bit_length b - 53) \<le> yb"
          unfolding yb(4) by (intro mult_right_mono) simp_all
        with ya yb(1) show ?thesis by simp
      next
        case False
        with L have lt: "bit_length a \<le> bit_length b - 1" by simp
        with yb(3) have "\<not> 1024 \<le> bit_length a" by simp
        with Ba obtain ya where ya: "round_double (of_int a) = Fin ya" "ya \<le> 2 ^ bit_length a"
          by auto
        have "(2::rat) ^ bit_length a \<le> 2 ^ (bit_length b - 1)"
          using lt by (intro power_increasing) simp_all
        with ya(2) yb(2) have "ya \<le> yb" by linarith
        with ya(1) yb(1) show ?thesis by simp
      qed
    qed
  qed
qed

lemma big_stuck: "js_add (Fin 9007199254740992) (Fin 1) = Fin 9007199254740992"
  by code_simp

lemma double_preimage:
  assumes n: "9007199254740992 \<le> n"
    and r: "round_double (of_int n) = Fin (of_int (2 * M))"
    and M: "4503599627370496 \<le> M" "M < 9007199254740992" "odd M"
  shows "n = 2 * M"
proof -
  have small: "n < 18014398509481984"
  proof (rule ccontr)
    assume "\<not> n < 18014398509481984"
    then have "18014398509481984 \<le> n" by simp
    from round_double_mono [OF _ this]
    have "num_le (round_double (of_int 18014398509481984)) (round_double (of_int n))" by simp
    moreover have "round_double (of_int 18014398509481984) = Fin (of_int 18014398509481984)"
      using double_exact [of 4503599627370496 2] by simp
    ultimately have "(of_int 18014398509481984 :: rat) \<le> of_int (2 * M)"
      unfolding r by (simp only: num_le_simps)
    then have "18014398509481984 \<le> 2 * M" by (simp only: of_int_le_iff)
    with M(2) show False by simp
  qed
  define k where "k = n div 2"
  from n small have k: "4503599627370496 \<le> k" "k < 9007199254740992" by (simp_all add: k_def)
  show ?thesis
  proof (cases "even n")
    case True
    then have nk: "n = 2 * k" by (auto simp: k_def)
    from double_even [OF k] r have "2 * k = 2 * M" unfolding nk by simp
    with nk show ?thesis by simp
  next
    case False
    then have nk: "n = 2 * k + 1" by (auto simp: k_def elim: oddE)
    from double_tie [OF k] r have "2 * (if even k then k else k + 1) = 2 * M"
      unfolding nk by simp
    then have "(if even k then k else k + 1) = M" by simp
    moreover have "even (if even k then k else k + 1)" by simp
    ultimately show ?thesis using M(3) by simp
  qed
qed

lemma js_add_of_int:
  "js_add (Fin (of_int y)) (Fin 1) = round_double (of_int (y + 1))"
  by (simp add: js_add_def)

lemma big_counter:
  assumes "9007199254740992 \<le> n"
  shows "js_add (round_double (of_int n)) (Fin 1) = round_double (of_int n) \<or>
    (\<exists>M. 4503599627370496 \<le> M \<and> M < 9007199254740992 \<and> odd M \<and>
       round_double (of_int n) = Fin (of_int (2 * M)) \<and>
       js_add (Fin (of_int (2 * M))) (Fin 1) = Fin (of_int (2 * M + 2)) \<and>
       js_add (Fin (of_int (2 * M + 2))) (Fin 1) = Fin (of_int (2 * M + 2)))"
proof -
  from round_double_big_form [OF assms]
  show ?thesis
  proof
    assume "round_double (of_int n) = PInf"
    then show ?thesis by (simp add: js_add_def)
  next
    assume "\<exists>M s. round_double (of_int n) = Fin (of_int (M * 2 ^ s)) \<and>
       4503599627370496 \<le> M \<and> M < 9007199254740992 \<and> 1 \<le> s \<and> s \<le> 971 \<and>
       bit_length n \<le> s + 53"
    then obtain M s where r: "round_double (of_int n) = Fin (of_int (M * 2 ^ s))"
      and M: "4503599627370496 \<le> M" "M < 9007199254740992" and s: "1 \<le> s" "s \<le> 971"
      by blast
    show ?thesis
    proof (cases "2 \<le> s")
      case True
      from double_stuck [OF M True s(2)] r show ?thesis by simp
    next
      case False
      with s have s1: "s = 1" by simp
      with r have r2: "round_double (of_int n) = Fin (of_int (2 * M))" by (simp add: mult.commute)
      have t: "js_add (Fin (of_int (2 * M))) (Fin 1)
          = Fin (of_int (2 * (if even M then M else M + 1)))"
        unfolding js_add_of_int by (rule double_tie [OF M])
      show ?thesis
      proof (cases "even M")
        case True
        with t r2 show ?thesis by simp
      next
        case False
        with t have t1: "js_add (Fin (of_int (2 * M))) (Fin 1) = Fin (of_int (2 * M + 2))"
          by (simp add: algebra_simps)
        have t2: "js_add (Fin (of_int (2 * M + 2))) (Fin 1) = Fin (of_int (2 * M + 2))"
        proof (cases "M + 1 < 9007199254740992")
          case True
          have "round_double (of_int (2 * (M + 1) + 1))
              = Fin (of_int (2 * (if even (M + 1) then M + 1 else M + 1 + 1)))"
            by (rule double_tie) (use M True in simp_all)
          with False show ?thesis unfolding js_add_of_int by (simp add: algebra_simps)
        next
          case False
          with M(2) have "M = 9007199254740991" by simp
          moreover have "js_add (Fin 18014398509481984) (Fin 1) = Fin 18014398509481984"
            by code_simp
          ultimately show ?thesis by simp
        qed
        from M False r2 t1 t2 show ?thesis by blast
      qed
    qed
  qed
qed

subsection \<open>The loop of a range\<close>

text \<open>
  The loop stops with the array when \<^verbatim>\<open>i <= right\<close> fails, and with a \<^verbatim>\<open>RangeError\<close> when the
  array is full. Between exact bounds it counts from the left bound to the right one; with
  the left bound above the right one it does not run at all; and a counter that \<^verbatim>\<open>i++\<close>
  does not change fills the array. Whatever the bounds, a loop that ends has counted from
  the integer of the left bound to the integer of the right one (\<open>range_loop_sound\<close>): from
  \<open>2^53\<close> on the counter stops advancing after at most one step, and the loop ends only for
  two equal bounds that are a double.
\<close>

lemma range_loop_exact:
  "0 \<le> l \<Longrightarrow> r < 9007199254740992 \<Longrightarrow>
   range_loop (Fin (of_int l)) (Fin (of_int r)) acc = Done ys \<Longrightarrow>
   ys = acc @ map (\<lambda>i. Num (Fin (of_int i))) [l..r]"
proof (induction l r arbitrary: acc rule: upto.induct)
  case (1 i j)
  show ?case
  proof (cases "i \<le> j")
    case True
    then have le: "num_le (Fin (of_int i)) (Fin (of_int j))"
      by (simp add: num_le_def)
    have add: "js_add (Fin (of_int i)) (Fin 1) = Fin (of_int (i + 1))"
      using "1.prems" True by (intro js_add_one_exact) simp_all
    from "1.prems"(3) le add
    have rec: "range_loop (Fin (of_int (i + 1))) (Fin (of_int j)) (acc @ [Num (Fin (of_int i))])
        = Done ys"
      by (subst (asm) range_loop.simps) (simp split: if_splits)
    have "ys = (acc @ [Num (Fin (of_int i))]) @ map (\<lambda>i. Num (Fin (of_int i))) [i + 1..j]"
      by (rule "1.IH" [OF True _ _ rec]) (use "1.prems" in simp_all)
    then show ?thesis
      using True by (simp add: upto_rec1 [of i j])
  next
    case False
    then have "\<not> num_le (Fin (of_int i)) (Fin (of_int j))"
      by (simp add: num_le_def)
    with "1.prems"(3) have "ys = acc"
      by (subst (asm) range_loop.simps) simp
    with False show ?thesis by simp
  qed
qed

lemma range_loop_empty: "\<not> num_le left right \<Longrightarrow> range_loop left right acc = Done acc"
  by (subst range_loop.simps) simp

lemma range_loop_stuck:
  "js_add i (Fin 1) = i \<Longrightarrow> num_le i right \<Longrightarrow> range_loop i right acc = RangeError"
proof (induction i right acc rule: range_loop.induct)
  case (1 i right array)
  show ?case
  proof (cases "int (length array) < 4294967295")
    case True
    with 1 have "range_loop (js_add i (Fin 1)) right (array @ [Num i]) = RangeError"
      by simp
    with 1 True show ?thesis by (subst range_loop.simps) simp
  next
    case False
    with 1 show ?thesis by (subst range_loop.simps) simp
  qed
qed

lemma range_loop_not_OutOfFuel: "range_loop i right acc \<noteq> OutOfFuel"
proof (induction i right acc rule: range_loop.induct)
  case (1 i right array)
  then show ?case by (subst range_loop.simps) simp
qed

lemma num_le_trans: "num_le x y \<Longrightarrow> num_le y z \<Longrightarrow> num_le x z"
  by (cases x; cases y; cases z) (simp_all add: num_le_def)

lemma num_le_antisym: "num_le x y \<Longrightarrow> num_le y x \<Longrightarrow> x = y"
  by (cases x; cases y) (simp_all add: num_le_def)

lemma range_loop_step:
  "num_le i right \<Longrightarrow> int (length acc) < 4294967295 \<Longrightarrow>
   range_loop i right acc = range_loop (js_add i (Fin 1)) right (acc @ [Num i])"
  by (subst range_loop.simps) simp

lemma range_loop_invariant_aux:
  "(\<forall>i. I i \<longrightarrow> num_le i right \<and> I (js_add i (Fin 1))) \<Longrightarrow> I i \<Longrightarrow>
   range_loop i right acc = RangeError"
proof (induction i right acc rule: range_loop.induct)
  case (1 i right array)
  from "1.prems" have le: "num_le i right" and nx: "I (js_add i (Fin 1))" by blast+
  show ?case
  proof (cases "int (length array) < 4294967295")
    case True
    from "1.IH" [OF le True "1.prems"(1) nx] le True show ?thesis
      by (subst range_loop.simps) simp
  next
    case False
    with le show ?thesis by (subst range_loop.simps) simp
  qed
qed

lemma range_loop_invariant:
  assumes "\<And>i. I i \<Longrightarrow> num_le i right \<and> I (js_add i (Fin 1))" and "I i"
  shows "range_loop i right acc = RangeError"
  using assms by (intro range_loop_invariant_aux [where I = I]) blast+

text \<open>
  Whatever the bounds, a loop that ends has counted from the left bound to the right one.
\<close>

lemma range_loop_sound:
  assumes A: "0 \<le> A" and B: "0 \<le> B"
    and d: "range_loop (round_double (of_int A)) (round_double (of_int B)) [] = Done xs"
  shows "xs = map (\<lambda>i. Num (Fin (of_int i))) [A..B]"
proof -
  let ?l = "round_double (of_int A)" and ?r = "round_double (of_int B)"
  consider (small) "B < 9007199254740992"
    | (mid) "9007199254740992 \<le> B" "A \<le> 9007199254740992"
    | (big) "9007199254740992 \<le> B" "9007199254740992 < A" by linarith
  then show ?thesis
  proof cases
    case small
    with B have rb: "?r = Fin (of_int B)" by (simp add: round_double_exact)
    show ?thesis
    proof (cases "A < 9007199254740992")
      case True
      with A have la: "?l = Fin (of_int A)" by (simp add: round_double_exact)
      from d have "range_loop (Fin (of_int A)) (Fin (of_int B)) [] = Done xs"
        unfolding la rb .
      from range_loop_exact [OF A small this] show ?thesis by simp
    next
      case False
      then have "num_le (Fin 9007199254740992) ?l" by (intro round_double_ge_big) simp
      moreover have "(of_int B :: rat) < 9007199254740992"
        using small by (metis of_int_less_iff of_int_numeral)
      ultimately have "\<not> num_le ?l ?r"
        unfolding rb by (cases ?l) (auto simp: num_le_def)
      with d have "xs = []" by (simp add: range_loop_empty)
      moreover from False small have "B < A" by simp
      ultimately show ?thesis by simp
    qed
  next
    case mid
    with A have la: "?l = Fin (of_int A)" by (simp add: round_double_exact)
    have rb: "num_le (Fin 9007199254740992) ?r" using mid(1) by (rule round_double_ge_big)
    define I where "I i = (\<exists>k. i = Fin (of_int k) \<and> 0 \<le> k \<and> k \<le> 9007199254740992)" for i
    have "range_loop ?l ?r [] = RangeError"
    proof (rule range_loop_invariant [where I = I])
      show "I ?l" unfolding I_def la using A mid(2) by blast
    next
      fix i :: jsnum assume "I i"
      then obtain k where k: "i = Fin (of_int k)" "0 \<le> k" "k \<le> 9007199254740992"
        unfolding I_def by blast
      have "(of_int k :: rat) \<le> 9007199254740992"
        using k(3) by (metis of_int_le_iff of_int_numeral)
      then have "num_le i (Fin 9007199254740992)" unfolding k(1) by simp
      from num_le_trans [OF this rb] have 1: "num_le i ?r" .
      have 2: "I (js_add i (Fin 1))"
      proof (cases "k = 9007199254740992")
        case True
        with k(1) have "js_add i (Fin 1) = Fin (of_int 9007199254740992)"
          by (simp add: big_stuck)
        then show ?thesis unfolding I_def by (metis order_refl zero_le_numeral)
      next
        case False
        with k have "js_add i (Fin 1) = Fin (of_int (k + 1))" "0 \<le> k + 1"
          "k + 1 \<le> 9007199254740992"
          by (simp_all add: js_add_one_exact)
        then show ?thesis unfolding I_def by blast
      qed
      from 1 2 show "num_le i ?r \<and> I (js_add i (Fin 1))" by simp
    qed
    with d show ?thesis by simp
  next
    case big
    then have bA: "9007199254740992 \<le> A" by simp
    show ?thesis
    proof (cases "num_le ?l ?r")
      case False
      with d have "xs = []" by (simp add: range_loop_empty)
      moreover have "B < A"
      proof (rule ccontr)
        assume "\<not> B < A"
        then have "A \<le> B" by simp
        from round_double_mono [OF A this] False show False by simp
      qed
      ultimately show ?thesis by simp
    next
      case le: True
      from big_counter [OF bA] show ?thesis
      proof
        assume "js_add ?l (Fin 1) = ?l"
        from range_loop_stuck [OF this le] d show ?thesis by simp
      next
        assume "\<exists>M. 4503599627370496 \<le> M \<and> M < 9007199254740992 \<and> odd M \<and>
          ?l = Fin (of_int (2 * M)) \<and>
          js_add (Fin (of_int (2 * M))) (Fin 1) = Fin (of_int (2 * M + 2)) \<and>
          js_add (Fin (of_int (2 * M + 2))) (Fin 1) = Fin (of_int (2 * M + 2))"
        then obtain M where M: "4503599627370496 \<le> M" "M < 9007199254740992" "odd M"
          and l: "?l = Fin (of_int (2 * M))"
          and s1: "js_add (Fin (of_int (2 * M))) (Fin 1) = Fin (of_int (2 * M + 2))"
          and s2: "js_add (Fin (of_int (2 * M + 2))) (Fin 1) = Fin (of_int (2 * M + 2))"
          by blast
        from double_preimage [OF bA l M] have AM: "A = 2 * M" .
        from le have "range_loop ?l ?r [] = range_loop (js_add ?l (Fin 1)) ?r ([] @ [Num ?l])"
          by (intro range_loop_step) simp_all
        with d l s1 have d1: "range_loop (Fin (of_int (2 * M + 2))) ?r [Num ?l] = Done xs"
          by simp
        have nle: "\<not> num_le (Fin (of_int (2 * M + 2))) ?r"
        proof
          assume "num_le (Fin (of_int (2 * M + 2))) ?r"
          from range_loop_stuck [OF s2 this] d1 show False by simp
        qed
        with d1 have xs: "xs = [Num ?l]" by (simp add: range_loop_empty)
        have "B = A"
        proof (rule ccontr)
          assume "B \<noteq> A"
          then consider "A + 1 \<le> B" | "B < A" by linarith
          then show False
          proof cases
            case 1
            from round_double_mono [OF _ 1] A
            have "num_le (round_double (of_int (A + 1))) ?r" by simp
            moreover have "round_double (of_int (A + 1)) = Fin (of_int (2 * M + 2))"
              using s1 unfolding js_add_of_int AM .
            ultimately show False using nle by simp
          next
            case 2
            then have "B \<le> A" by simp
            from round_double_mono [OF B this] le have "?r = ?l" by (intro num_le_antisym)
            with l have "?r = Fin (of_int (2 * M))" by simp
            from double_preimage [OF big(1) this M] AM 2 show False by simp
          qed
        qed
        with xs l AM show ?thesis by simp
      qed
    qed
  qed
qed

lemma range_p_success:
  assumes "range_p rule pos = Done (r, pos')" and "r \<noteq> Null"
  shows "\<exists>a b. digit_string a \<and> digit_string b \<and> r = Arr (item_values (Range a b)) \<and>
           pos' = pos + length (item_text (Range a b)) \<and>
           text_at rule pos pos' = item_text (Range a b)"
proof -
  from assms obtain result xs where
    seq: "sequence [value_p rule, tok_range rule, value_p rule] pos = Done (result, pos')"
    and res: "result \<noteq> Null"
    and loop: "range_loop (parseInt (idx result 0)) (parseInt (idx result 2)) [] = Done xs"
    and r: "r = Arr xs"
    by (auto simp: range_p_def Let_def split: result.splits if_splits)
  from sequence_cases [OF seq] res obtain rs where rs: "result = Arr rs"
    and ch: "chain [value_p rule, tok_range rule, value_p rule] pos rs pos'"
    by auto
  from ch obtain r1 r2 r3 q1 q2 where rs3: "rs = [r1, r2, r3]"
    and 1: "value_p rule pos = Done (r1, q1)" "r1 \<noteq> Null"
    and 2: "tok_range rule q1 = Done (r2, q2)" "r2 \<noteq> Null"
    and 3: "value_p rule q2 = Done (r3, pos')" "r3 \<noteq> Null"
    by auto
  from value_p_success [OF 1] obtain a where a: "r1 = Str a" "digit_string a"
    "q1 = pos + length a" "text_at rule pos q1 = a" by blast
  from makeStringParser_success [OF 2 [unfolded tok_range_def]]
  have m: "q2 = q1 + 2" "text_at rule q1 q2 = ''..''" by auto
  from value_p_success [OF 3] obtain b where b: "r3 = Str b" "digit_string b"
    "pos' = q2 + length b" "text_at rule q2 pos' = b" by blast
  have t1: "text_at rule pos pos' = text_at rule pos q1 @ text_at rule q1 pos'"
    using a b m by (intro text_at_append) simp_all
  have t2: "text_at rule q1 pos' = text_at rule q1 q2 @ text_at rule q2 pos'"
    using a b m by (intro text_at_append) simp_all
  have tx: "text_at rule pos pos' = a @ ''..'' @ b"
    using t1 t2 a b m by simp
  from loop rs rs3 a b
  have "range_loop (round_double (of_int (parse_digits a)))
          (round_double (of_int (parse_digits b))) [] = Done xs"
    by (simp add: parseInt_digit_string)
  moreover have "0 \<le> parse_digits a" "0 \<le> parse_digits b"
    using a b by (simp_all add: parse_digits_nonneg digit_string_def)
  ultimately have "xs = item_values (Range a b)"
    using range_loop_sound [of "parse_digits a" "parse_digits b" xs] by simp
  with a b m tx r show ?thesis by auto
qed

lemma first_item_success:
  assumes "choice [range_p rule, value_p rule] pos = Done (r, pos')" and "r \<noteq> Null"
  shows "\<exists>it. wf_item it \<and> concat_val [] r = item_values it \<and>
           pos' = pos + length (item_text it) \<and> text_at rule pos pos' = item_text it \<and>
           pos < pos'"
proof -
  obtain r1 q1 where rp: "range_p rule pos = Done (r1, q1)"
    using assms by (auto split: result.splits)
  show ?thesis
  proof (cases "r1 = Null")
    case False
    with assms rp have eq: "r = r1" "pos' = q1" by simp_all
    from range_p_success [OF rp False] obtain a b where ab: "digit_string a" "digit_string b"
      "r1 = Arr (item_values (Range a b))" "q1 = pos + length (item_text (Range a b))"
      "text_at rule pos q1 = item_text (Range a b)" by blast
    then have "wf_item (Range a b) \<and> concat_val [] r = item_values (Range a b) \<and>
           pos' = pos + length (item_text (Range a b)) \<and>
           text_at rule pos pos' = item_text (Range a b) \<and> pos < pos'"
      using eq by simp
    then show ?thesis by blast
  next
    case True
    with forwardD [OF forward_range_p rp] have "q1 = pos" by simp
    with assms rp True have v: "value_p rule pos = Done (r, pos')"
      by (auto split: result.splits if_splits)
    from value_p_success [OF v assms(2)] obtain d where d: "r = Str d" "digit_string d"
      "pos' = pos + length d" "text_at rule pos pos' = d" by blast
    then have "wf_item (Value d) \<and> concat_val [] r = item_values (Value d) \<and>
           pos' = pos + length (item_text (Value d)) \<and>
           text_at rule pos pos' = item_text (Value d) \<and> pos < pos'"
      by (auto simp: digit_string_def)
    then show ?thesis by blast
  qed
qed

text \<open>Where a comma and where an item starts, in terms of the rule's characters.\<close>

lemma drop_Cons_nth: "drop n xs = y # ys \<Longrightarrow> n < length xs \<and> xs ! n = y"
proof -
  assume a: "drop n xs = y # ys"
  then have lt: "n < length xs" by (cases "n < length xs") auto
  then have "drop n xs = xs ! n # drop (Suc n) xs" by (simp add: Cons_nth_drop_Suc)
  with a lt show ?thesis by simp
qed

lemma comma_at:
  "tok_comma rule pos = Done (c, q) \<Longrightarrow>
   (c \<noteq> Null) = (pos < length rule \<and> rule ! pos = CHR '','')"
  by (cases "drop pos rule")
     (auto simp: tok_comma_def makeStringParser_def substr_def
        split: if_splits dest: drop_Cons_nth)

lemma digit_at:
  "value_p rule pos = Done (r, q) \<Longrightarrow>
   (r \<noteq> Null) = (pos < length rule \<and> is_digit (rule ! pos))"
  by (cases "drop pos rule")
     (auto simp: value_p_def makeRegexParser_def re_digits_def Let_def
        split: if_splits option.splits dest: drop_Cons_nth)

lemma item_text_starts_with_digit: "wf_item it \<Longrightarrow> \<exists>c cs. item_text it = c # cs \<and> is_digit c"
  by (cases it) (auto simp: digit_string_def neq_Nil_conv)

lemma first_digit_at:
  assumes "choice [range_p rule, value_p rule] pos = Done (r, q)"
  shows "(r \<noteq> Null) = (pos < length rule \<and> is_digit (rule ! pos))"
proof (cases "r = Null")
  case False
  from first_item_success [OF assms False] obtain it where it: "wf_item it"
    "text_at rule pos q = item_text it" by blast
  from item_text_starts_with_digit [OF it(1)] obtain c cs where
    c: "item_text it = c # cs" "is_digit c" by blast
  with it(2) have t: "take (q - pos) (drop pos rule) = c # cs" by (simp add: text_at_def)
  then have ne: "drop pos rule \<noteq> []" by auto
  then have lt: "pos < length rule" by simp
  from t ne have "hd (drop pos rule) = c"
    by (cases "drop pos rule") (auto simp: take_Cons' split: if_splits)
  with lt c have "is_digit (rule ! pos)" by (simp add: hd_drop_conv_nth)
  with lt False show ?thesis by simp
next
  case True
  from assms obtain r1 q1 where rp: "range_p rule pos = Done (r1, q1)"
    by (auto split: result.splits)
  with assms True have r1: "r1 = Null" by (auto split: if_splits)
  with forwardD [OF forward_range_p rp] have "q1 = pos" by simp
  with assms rp r1 True have "value_p rule pos = Done (Null, q)"
    by (auto split: result.splits if_splits)
  from digit_at [OF this] True show ?thesis by simp
qed

lemma nOrMore_while_Null: "nOrMore_while fuel p acc Null pos = Done (acc, pos)"
  by (cases fuel) simp_all

lemma nOrMore_zero_nonnull: "nOrMore fuel 0 p pos \<noteq> Done (Null, pos')"
  by (auto simp: nOrMore_def split: result.splits option.splits)

lemma nOrMore_single:
  assumes fw: "forward p"
    and nr: "\<And>pos r q r' q'. p pos = Done (r, q) \<Longrightarrow> r \<noteq> Null \<Longrightarrow> p q = Done (r', q') \<Longrightarrow> r' = Null"
    and n: "nOrMore fuel 0 p pos = Done (res, pos')"
  shows "(p pos = Done (Null, pos) \<and> res = Arr [] \<and> pos' = pos) \<or>
         (\<exists>r. r \<noteq> Null \<and> p pos = Done (r, pos') \<and> res = Arr [r] \<and> p pos' = Done (Null, pos'))"
proof -
  from n obtain parsed pos1 result where
    1: "p pos = Done (parsed, pos1)" and
    2: "nOrMore_while fuel p [] parsed pos1 = Done (result, pos')" and
    3: "res = Arr result"
    by (auto simp: nOrMore_def split: result.splits option.splits if_splits)
  show ?thesis
  proof (cases "parsed = Null")
    case True
    with forwardD [OF fw 1] have "pos1 = pos" by simp
    with 1 2 3 True show ?thesis by (simp add: nOrMore_while_Null)
  next
    case False
    with 2 obtain k where k: "fuel = Suc k" by (cases fuel) auto
    with 2 False obtain parsed' pos'' where
      4: "p pos1 = Done (parsed', pos'')" and
      5: "nOrMore_while k p [parsed] parsed' pos'' = Done (result, pos')"
      by (auto split: result.splits option.splits)
    from nr [OF 1 False 4] have n': "parsed' = Null" .
    with forwardD [OF fw 4] have "pos'' = pos1" by simp
    with 5 n' have "result = [parsed]" "pos' = pos1" by (simp_all add: nOrMore_while_Null)
    with 1 3 4 n' False \<open>pos'' = pos1\<close> show ?thesis by auto
  qed
qed

lemma sequence_two_Null:
  "sequence [p1, p2] pos = Done (Null, pos') \<Longrightarrow>
   (\<exists>q. p1 pos = Done (Null, q)) \<or>
   (\<exists>r1 q q'. p1 pos = Done (r1, q) \<and> r1 \<noteq> Null \<and> p2 q = Done (Null, q'))"
  by (auto simp: sequence_def split: result.splits option.splits if_splits)

lemma rangeList_Null_first:
  assumes "rangeList fuel rule pos = Done (Null, pos')"
  shows "\<exists>q. choice [range_p rule, value_p rule] pos = Done (Null, q)"
proof -
  from assms obtain k where k: "fuel = Suc k"
    by (cases fuel) (auto simp: rangeList.simps)
  with assms have "sequence [choice [range_p rule, value_p rule],
      nOrMore k 0 (rangeTail k rule)] pos = Done (Null, pos')"
    by (auto simp: rangeList.simps Let_def split: result.splits option.splits if_splits)
  from sequence_two_Null [OF this] show ?thesis
    by (auto simp: nOrMore_zero_nonnull)
qed

lemma rangeList_success_parts:
  assumes "rangeList fuel rule pos = Done (r, pos')" and "r \<noteq> Null"
  shows "\<exists>k r0 p1 r1. fuel = Suc k \<and>
     choice [range_p rule, value_p rule] pos = Done (r0, p1) \<and> r0 \<noteq> Null \<and>
     nOrMore k 0 (rangeTail k rule) p1 = Done (r1, pos') \<and>
     r = Arr (if truthy (idx r1 0) then concat_val (concat_val [] r0) (idx r1 0)
              else concat_val [] r0)"
proof -
  from assms obtain k where k: "fuel = Suc k"
    by (cases fuel) (auto simp: rangeList.simps)
  with assms obtain result where
    seq: "sequence [choice [range_p rule, value_p rule],
      nOrMore k 0 (rangeTail k rule)] pos = Done (result, pos')" and
    res: "result \<noteq> Null" and
    r: "r = Arr (if truthy (idx (idx result 1) 0)
              then concat_val (concat_val [] (idx result 0)) (idx (idx result 1) 0)
              else concat_val [] (idx result 0))"
    by (auto simp: rangeList.simps Let_def split: result.splits option.splits if_splits)
  from sequence_cases [OF seq] res obtain rs where "result = Arr rs"
    "chain [choice [range_p rule, value_p rule], nOrMore k 0 (rangeTail k rule)] pos rs pos'"
    by auto
  with r k show ?thesis by auto
qed

lemma tail_start_comma_fail: "tok_comma rule pos = Done (Null, q) \<Longrightarrow> \<not> tail_start rule pos"
  by (auto simp: tail_start_def dest: comma_at)

lemma comma_next:
  "tok_comma rule pos = Done (c, q) \<Longrightarrow> c \<noteq> Null \<Longrightarrow> q = Suc pos"
  by (auto dest: makeStringParser_success simp: tok_comma_def)

lemma tail_start_first_fail:
  assumes "tok_comma rule pos = Done (c, q)"
    and "choice [range_p rule, value_p rule] q = Done (Null, q')"
  shows "\<not> tail_start rule pos"
proof (cases "c = Null")
  case True
  with assms(1) show ?thesis by (simp add: tail_start_comma_fail)
next
  case False
  with assms(1) have "q = Suc pos" by (rule comma_next)
  with first_digit_at [OF assms(2)] show ?thesis by (simp add: tail_start_def)
qed

lemma tail_startI:
  assumes "tok_comma rule pos = Done (c, q)" and "c \<noteq> Null"
    and "choice [range_p rule, value_p rule] q = Done (r, q')" and "r \<noteq> Null"
  shows "tail_start rule pos"
proof -
  from assms(1,2) have q: "q = Suc pos" by (rule comma_next)
  from comma_at [OF assms(1)] assms(2) have "pos < length rule" "rule ! pos = CHR '',''"
    by simp_all
  moreover from first_digit_at [OF assms(3)] assms(4) q
  have "Suc pos < length rule" "is_digit (rule ! Suc pos)" by simp_all
  ultimately show ?thesis by (simp add: tail_start_def)
qed


lemma items_text_Cons:
  "items \<noteq> [] \<Longrightarrow> items_text (it # items) = item_text it @ '','' @ items_text items"
  by (cases items) simp_all

lemma rangeList_rangeTail_sound:
  "(\<forall>pos r pos'. rangeList fuel rule pos = Done (r, pos') \<longrightarrow> r \<noteq> Null \<longrightarrow>
      (\<exists>items. parses_items rule pos pos' r items) \<and> \<not> tail_start rule pos') \<and>
   (\<forall>pos r pos'. rangeTail fuel rule pos = Done (r, pos') \<longrightarrow>
      (if r = Null then \<not> tail_start rule pos
       else (\<exists>items. parses_items rule (Suc pos) pos' r items) \<and>
            text_at rule pos (Suc pos) = '','' \<and> \<not> tail_start rule pos'))"
proof (induction fuel)
  case 0
  show ?case by (simp add: rangeList.simps rangeTail.simps)
next
  case (Suc k)
  then have IHt: "\<And>pos r pos'. rangeTail k rule pos = Done (r, pos') \<Longrightarrow>
      (if r = Null then \<not> tail_start rule pos
       else (\<exists>items. parses_items rule (Suc pos) pos' r items) \<and>
            text_at rule pos (Suc pos) = '','' \<and> \<not> tail_start rule pos')"
    and IHl: "\<And>pos r pos'. rangeList k rule pos = Done (r, pos') \<Longrightarrow> r \<noteq> Null \<Longrightarrow>
      (\<exists>items. parses_items rule pos pos' r items) \<and> \<not> tail_start rule pos'"
    by blast+
  have nr: "\<And>pos r q r' q'. rangeTail k rule pos = Done (r, q) \<Longrightarrow> r \<noteq> Null \<Longrightarrow>
      rangeTail k rule q = Done (r', q') \<Longrightarrow> r' = Null"
  proof (rule ccontr)
    fix pos r q r' q'
    assume a: "rangeTail k rule pos = Done (r, q)" "r \<noteq> Null"
      "rangeTail k rule q = Done (r', q')" "r' \<noteq> Null"
    from IHt [OF a(1)] a(2) have "\<not> tail_start rule q" by simp
    moreover have "tail_start rule q"
    proof -
      from a(3) obtain j where j: "k = Suc j" by (cases k) (auto simp: rangeTail.simps)
      with a(3,4) obtain result where
        seq: "sequence [tok_comma rule, rangeList j rule] q = Done (result, q')"
        and res: "result \<noteq> Null"
        by (auto simp: rangeTail.simps split: result.splits option.splits if_splits)
      from sequence_cases [OF seq] res obtain c q1 r2 where
        c: "tok_comma rule q = Done (c, q1)" "c \<noteq> Null"
        and l: "rangeList j rule q1 = Done (r2, q')" "r2 \<noteq> Null"
        by auto
      from rangeList_success_parts [OF l] obtain r0 p1 where
        "choice [range_p rule, value_p rule] q1 = Done (r0, p1)" "r0 \<noteq> Null" by blast
      with c show ?thesis by (rule tail_startI)
    qed
    ultimately show False by simp
  qed
  have L: "(\<exists>items. parses_items rule pos pos' r items) \<and> \<not> tail_start rule pos'"
    if a: "rangeList (Suc k) rule pos = Done (r, pos')" and n: "r \<noteq> Null" for pos r pos'
  proof -
    from rangeList_success_parts [OF a n] obtain r0 p1 r1 where
      f: "choice [range_p rule, value_p rule] pos = Done (r0, p1)" "r0 \<noteq> Null" and
      m: "nOrMore k 0 (rangeTail k rule) p1 = Done (r1, pos')" and
      r: "r = Arr (if truthy (idx r1 0) then concat_val (concat_val [] r0) (idx r1 0)
              else concat_val [] r0)"
      by auto
    from first_item_success [OF f] obtain it where it: "wf_item it"
      "concat_val [] r0 = item_values it" "p1 = pos + length (item_text it)"
      "text_at rule pos p1 = item_text it" "pos < p1" by blast
    from nOrMore_single [OF forward_rangeTail nr m]
    show ?thesis
    proof
      assume c: "rangeTail k rule p1 = Done (Null, p1) \<and> r1 = Arr [] \<and> pos' = p1"
      with IHt [of p1 Null p1] have nt: "\<not> tail_start rule pos'" by simp
      from c r it have "parses_items rule pos pos' r [it]"
        by (simp add: parses_items_def range_list_value_def)
      with nt show ?thesis by blast
    next
      assume "\<exists>rt. rt \<noteq> Null \<and> rangeTail k rule p1 = Done (rt, pos') \<and> r1 = Arr [rt] \<and>
          rangeTail k rule pos' = Done (Null, pos')"
      then obtain rt where rt: "rt \<noteq> Null" "rangeTail k rule p1 = Done (rt, pos')"
        "r1 = Arr [rt]" by blast
      from IHt [OF rt(2)] rt(1) obtain items where
        items: "parses_items rule (Suc p1) pos' rt items" and
        comma: "text_at rule p1 (Suc p1) = '',''" and nt: "\<not> tail_start rule pos'"
        by auto
      from items have i: "items \<noteq> []" "list_all wf_item items" "Suc p1 \<le> pos'"
        "text_at rule (Suc p1) pos' = items_text items" "rt = Arr (range_list_value items)"
        by (simp_all add: parses_items_def)
      have t1: "text_at rule pos pos' = text_at rule pos p1 @ text_at rule p1 pos'"
        using it i by (intro text_at_append) simp_all
      have t2: "text_at rule p1 pos' = text_at rule p1 (Suc p1) @ text_at rule (Suc p1) pos'"
        using i by (intro text_at_append) simp_all
      have tx: "text_at rule pos pos' = items_text (it # items)"
        using t1 t2 it comma i by (simp add: items_text_Cons)
      have "r = Arr (range_list_value (it # items))"
        using r rt i it by (simp add: range_list_value_def)
      with tx it i have "parses_items rule pos pos' r (it # items)"
        by (simp add: parses_items_def)
      with nt show ?thesis by blast
    qed
  qed
  have T: "if r = Null then \<not> tail_start rule pos
       else (\<exists>items. parses_items rule (Suc pos) pos' r items) \<and>
            text_at rule pos (Suc pos) = '','' \<and> \<not> tail_start rule pos'"
    if a: "rangeTail (Suc k) rule pos = Done (r, pos')" for pos r pos'
  proof -
    from a obtain result where
      seq: "sequence [tok_comma rule, rangeList k rule] pos = Done (result, pos')"
      and r: "r = (if result \<noteq> Null then idx result 1 else Null)"
      by (auto simp: rangeTail.simps split: result.splits option.splits if_splits)
    from sequence_cases [OF seq] show ?thesis
    proof
      assume c: "result = Null \<and> pos' = pos"
      with seq have "sequence [tok_comma rule, rangeList k rule] pos = Done (Null, pos')"
        by simp
      from sequence_two_Null [OF this] have "\<not> tail_start rule pos"
      proof
        assume "\<exists>q. tok_comma rule pos = Done (Null, q)"
        then show ?thesis by (auto dest: tail_start_comma_fail)
      next
        assume "\<exists>r1 q q'. tok_comma rule pos = Done (r1, q) \<and> r1 \<noteq> Null \<and>
            rangeList k rule q = Done (Null, q')"
        then obtain r1 q q' where c1: "tok_comma rule pos = Done (r1, q)"
          and l: "rangeList k rule q = Done (Null, q')" by blast
        from rangeList_Null_first [OF l] obtain q'' where
          "choice [range_p rule, value_p rule] q = Done (Null, q'')" by blast
        from tail_start_first_fail [OF c1 this] show ?thesis .
      qed
      with c r show ?thesis by simp
    next
      assume "\<exists>rs. result = Arr rs \<and> chain [tok_comma rule, rangeList k rule] pos rs pos'"
      then obtain c q r2 where res: "result = Arr [c, r2]"
        and c: "tok_comma rule pos = Done (c, q)" "c \<noteq> Null"
        and l: "rangeList k rule q = Done (r2, pos')" "r2 \<noteq> Null"
        by auto
      from makeStringParser_success [OF c [unfolded tok_comma_def]]
      have q: "q = Suc pos" "text_at rule pos q = '',''" by auto
      from IHl [OF l] obtain items where "parses_items rule q pos' r2 items"
        "\<not> tail_start rule pos'" by blast
      with q r res l(2) show ?thesis by auto
    qed
  qed
  from L T show ?case by blast
qed

subsection \<open>The cut of the rule\<close>

lemma indexOf_absent: "c \<notin> set s \<Longrightarrow> indexOf s c = - 1"
  by (induction s) (auto simp: Let_def)

lemma rule_without_at:
  "CHR ''@'' \<notin> set rule \<Longrightarrow> trim (substr rule 0 (indexOf rule CHR ''@'')) = []"
  by (simp add: indexOf_absent substr_def trim_def)

lemma is_space_not_at: "is_space c \<Longrightarrow> c \<noteq> CHR ''@''"
  by (auto simp: is_space_def)

subsection \<open>The values productions return\<close>

lemma w_p_needs_v:
  "w_p rule number pos = Done (r, pos') \<Longrightarrow> r \<noteq> Null \<Longrightarrow> substr rule pos 1 = ''v''"
  by (auto simp: w_p_def tok_v_def makeStringParser_def split: if_splits)

lemma choice_result:
  "choice ps pos = Done (r, pos') \<Longrightarrow> r \<noteq> Null \<Longrightarrow> \<exists>p\<in>set ps. \<exists>q. p q = Done (r, pos')"
proof (induction ps arbitrary: pos)
  case Nil
  then show ?case by simp
next
  case (Cons p ps)
  from Cons.prems obtain r1 q where pq: "p pos = Done (r1, q)"
    by (auto split: result.splits option.splits)
  show ?case
  proof (cases "r1 = Null")
    case True
    with Cons.prems pq have "choice ps q = Done (r, pos')" by simp
    from Cons.IH [OF this Cons.prems(2)] show ?thesis by auto
  next
    case False
    with Cons.prems pq have "p pos = Done (r, pos')" by simp
    then show ?thesis by auto
  qed
qed

lemma relation_Bool:
  assumes "relation fuel rule number pos = Done (r, pos')"
  shows "r = Null \<or> (\<exists>b. r = Bool b)"
proof (cases "r = Null")
  case False
  have 1: "\<And>q. is_p rule number q = Done (r, pos') \<Longrightarrow> \<exists>b. r = Bool b"
    using False by (auto simp: is_p_def split: result.splits option.splits if_splits)
  have 2: "\<And>q. not_in fuel rule number q = Done (r, pos') \<Longrightarrow> \<exists>b. r = Bool b"
    using False by (auto simp: not_in_def split: result.splits option.splits if_splits)
  have 3: "\<And>q. isnot rule number q = Done (r, pos') \<Longrightarrow> \<exists>b. r = Bool b"
    using False by (auto simp: isnot_def split: result.splits option.splits if_splits)
  have 4: "\<And>q. in_p fuel rule number q = Done (r, pos') \<Longrightarrow> \<exists>b. r = Bool b"
    using False by (auto simp: in_p_def split: result.splits option.splits if_splits)
  have 5: "\<And>q. within_p fuel rule number q = Done (r, pos') \<Longrightarrow> \<exists>b. r = Bool b"
    using False by (auto simp: within_p_def Let_def split: result.splits option.splits if_splits)
  from choice_result [OF assms [unfolded relation_def] False]
  show ?thesis by (auto dest: 1 2 3 4 5)
qed simp

lemma conditions_Bool:
  "(\<forall>pos r pos'. and_p fuel rule number pos = Done (r, pos') \<longrightarrow> r = Null \<or> (\<exists>b. r = Bool b)) \<and>
   (\<forall>pos r pos'. or_p fuel rule number pos = Done (r, pos') \<longrightarrow> r = Null \<or> (\<exists>b. r = Bool b)) \<and>
   (\<forall>pos r pos'. condition fuel rule number pos = Done (r, pos') \<longrightarrow> (\<exists>b. r = Bool b))"
proof (induction fuel)
  case 0
  show ?case by (simp add: and_p.simps or_p.simps condition.simps)
next
  case (Suc k)
  have A: "r = Null \<or> (\<exists>b. r = Bool b)"
    if a: "and_p (Suc k) rule number pos = Done (r, pos')" for pos r pos'
  proof (cases "r = Null")
    case False
    with a obtain result where
      seq: "sequence [relation k rule number, whitespace rule, tok_and rule, whitespace rule,
                      condition k rule number] pos = Done (result, pos')"
      and t: "truthy result" and r: "r = js_and (idx result 0) (idx result 4)"
      by (auto simp: and_p.simps split: result.splits option.splits if_splits)
    from sequence_cases [OF seq] t obtain r1 r2 r3 r4 r5 q1 q4 where
      res: "result = Arr [r1, r2, r3, r4, r5]"
      and 1: "relation k rule number pos = Done (r1, q1)" "r1 \<noteq> Null"
      and 5: "condition k rule number q4 = Done (r5, pos')"
      by auto
    from relation_Bool [OF 1(1)] 1(2) obtain b1 where "r1 = Bool b1" by blast
    moreover from Suc 5 obtain b5 where "r5 = Bool b5" by blast
    ultimately show ?thesis using r res by (auto simp: js_and_def)
  qed simp
  have O: "r = Null \<or> (\<exists>b. r = Bool b)"
    if a: "or_p (Suc k) rule number pos = Done (r, pos')" for pos r pos'
  proof (cases "r = Null")
    case False
    with a obtain result where
      seq: "sequence [relation k rule number, whitespace rule, tok_or rule, whitespace rule,
                      condition k rule number] pos = Done (result, pos')"
      and t: "truthy result" and r: "r = js_or (idx result 0) (idx result 4)"
      by (auto simp: or_p.simps split: result.splits option.splits if_splits)
    from sequence_cases [OF seq] t obtain r1 r2 r3 r4 r5 q1 q4 where
      res: "result = Arr [r1, r2, r3, r4, r5]"
      and 1: "relation k rule number pos = Done (r1, q1)" "r1 \<noteq> Null"
      and 5: "condition k rule number q4 = Done (r5, pos')"
      by auto
    from relation_Bool [OF 1(1)] 1(2) obtain b1 where "r1 = Bool b1" by blast
    moreover from Suc 5 obtain b5 where "r5 = Bool b5" by blast
    ultimately show ?thesis using r res by (auto simp: js_or_def)
  qed simp
  have C: "\<exists>b. r = Bool b"
    if a: "condition (Suc k) rule number pos = Done (r, pos')" for pos r pos'
  proof -
    from a obtain result where
      seq: "sequence [choice [and_p k rule number, or_p k rule number,
                              relation k rule number]] pos = Done (result, pos')"
      and r: "r = (if truthy result then idx result 0 else Bool False)"
      by (auto simp: condition.simps split: result.splits option.splits if_splits)
    from sequence_cases [OF seq] show ?thesis
    proof
      assume "result = Null \<and> pos' = pos"
      with r show ?thesis by auto
    next
      assume "\<exists>rs. result = Arr rs \<and> chain [choice [and_p k rule number, or_p k rule number,
          relation k rule number]] pos rs pos'"
      then obtain r0 where res: "result = Arr [r0]" and
        c: "choice [and_p k rule number, or_p k rule number, relation k rule number] pos
              = Done (r0, pos')" "r0 \<noteq> Null"
        by auto
      from choice_result [OF c] Suc relation_Bool c(2) obtain b where "r0 = Bool b"
        by (auto; blast)
      with r res show ?thesis by simp
    qed
  qed
  from A O C show ?case by blast
qed

lemma condition_Bool:
  "condition fuel rule number pos = Done (r, pos') \<Longrightarrow> \<exists>b. r = Bool b"
  using conditions_Bool by blast

lemma operand_Num:
  assumes "operand rule number pos = Done (r, pos')" and "r \<noteq> Null"
  shows "\<exists>x. r = Num x"
proof -
  have 1: "\<And>q. n_p rule number q = Done (r, pos') \<Longrightarrow> \<exists>x. r = Num x"
    using assms(2) by (auto simp: n_p_def split: result.splits option.splits if_splits)
  have 2: "\<And>q. i_p rule number q = Done (r, pos') \<Longrightarrow> \<exists>x. r = Num x"
    using assms(2) by (auto simp: i_p_def split: result.splits option.splits if_splits)
  have 3: "\<And>q. f_p rule number q = Done (r, pos') \<Longrightarrow> \<exists>x. r = Num x"
    using assms(2) by (auto simp: f_p_def split: result.splits option.splits if_splits)
  have 4: "\<And>q. t_p rule number q = Done (r, pos') \<Longrightarrow> \<exists>x. r = Num x"
    using assms(2) by (auto simp: t_p_def js_or_def split: result.splits option.splits if_splits)
  have 5: "\<And>q. v_p rule number q = Done (r, pos') \<Longrightarrow> \<exists>x. r = Num x"
    using assms(2) by (auto simp: v_p_def split: result.splits option.splits if_splits)
  have 6: "\<And>q. w_p rule number q = Done (r, pos') \<Longrightarrow> \<exists>x. r = Num x"
    using assms(2) by (auto simp: w_p_def js_or_def split: result.splits option.splits if_splits)
  from choice_result [OF assms(1) [unfolded operand_def] assms(2)]
  show ?thesis by (auto dest: 1 2 3 4 5 6)
qed

lemma expression_Num:
  assumes "expression rule number pos = Done (r, pos')" and "r \<noteq> Null"
  shows "\<exists>x. r = Num x"
proof -
  have 1: "\<And>q. mod_p rule number q = Done (r, pos') \<Longrightarrow> \<exists>x. r = Num x"
    using assms(2) by (auto simp: mod_p_def split: result.splits option.splits if_splits)
  from choice_result [OF assms(1) [unfolded expression_def] assms(2)]
  show ?thesis by (auto dest: 1 operand_Num [OF _ assms(2)])
qed

lemma nOrMore_while_all:
  assumes P: "\<And>q r q'. p q = Done (r, q') \<Longrightarrow> r \<noteq> Null \<Longrightarrow> P r"
  shows "nOrMore_while fuel p acc parsed pos = Done (rs, pos') \<Longrightarrow>
         list_all P acc \<Longrightarrow> parsed \<noteq> Null \<longrightarrow> P parsed \<Longrightarrow> list_all P rs"
proof (induction fuel arbitrary: acc parsed pos)
  case 0
  then show ?case by (auto split: if_splits)
next
  case (Suc fuel)
  show ?case
  proof (cases "parsed = Null")
    case True
    with Suc.prems show ?thesis by simp
  next
    case False
    with Suc.prems(1) obtain parsed' q where
      pq: "p pos = Done (parsed', q)" and
      rest: "nOrMore_while fuel p (acc @ [parsed]) parsed' q = Done (rs, pos')"
      by (auto split: result.splits option.splits)
    have "list_all P (acc @ [parsed])" using Suc.prems False by simp
    moreover have "parsed' \<noteq> Null \<longrightarrow> P parsed'" using P [OF pq] by blast
    ultimately show ?thesis using Suc.IH [OF rest] by blast
  qed
qed

lemma nOrMore_all:
  assumes P: "\<And>q r q'. p q = Done (r, q') \<Longrightarrow> r \<noteq> Null \<Longrightarrow> P r"
    and n: "nOrMore fuel n p pos = Done (r, pos')" and r: "r \<noteq> Null"
  shows "\<exists>rs. r = Arr rs \<and> list_all P rs"
proof -
  from n r obtain parsed pos1 result where
    1: "p pos = Done (parsed, pos1)" and
    2: "nOrMore_while fuel p [] parsed pos1 = Done (result, pos')" and
    3: "r = Arr result"
    by (auto simp: nOrMore_def split: result.splits option.splits if_splits)
  have "parsed \<noteq> Null \<longrightarrow> P parsed" using P [OF 1] by blast
  with nOrMore_while_all [of p P, OF P 2] have "list_all P result" by simp
  with 3 show ?thesis by blast
qed

lemma not_p_result:
  assumes "not_p rule pos = Done (r, pos')" and "r \<noteq> Null"
  shows "r = Str ''not''"
proof -
  from assms obtain result where
    seq: "sequence [whitespace rule, tok_not rule] pos = Done (result, pos')" and
    res: "result \<noteq> Null" and r: "r = idx result 1"
    by (auto simp: not_p_def split: result.splits option.splits if_splits)
  from sequence_cases [OF seq] res obtain r1 r2 q where "result = Arr [r1, r2]"
    "tok_not rule q = Done (r2, pos')" "r2 \<noteq> Null"
    by auto
  with r makeStringParser_success [of "''not''" rule q r2 pos'] show ?thesis
    by (simp add: tok_not_def)
qed

lemma rangeList_Arr:
  "rangeList fuel rule pos = Done (r, pos') \<Longrightarrow> r \<noteq> Null \<Longrightarrow> \<exists>xs. r = Arr xs"
proof -
  assume a: "rangeList fuel rule pos = Done (r, pos')" "r \<noteq> Null"
  from rangeList_rangeTail_sound [of fuel rule] a
  obtain items where "parses_items rule pos pos' r items" by blast
  then show ?thesis by (auto simp: parses_items_def)
qed

subsection \<open>A range list answers\<close>

text \<open>
  With fuel above the number of characters left, \<^verbatim>\<open>rangeList\<close> returns or raises: the fuel
  does not run out.
\<close>

lemma sequence_two:
  "sequence [a, b] pos =
     (case a pos of OutOfFuel \<Rightarrow> OutOfFuel | RangeError \<Rightarrow> RangeError
      | Done (r1, q1) \<Rightarrow>
          if r1 = Null then Done (Null, pos)
          else (case b q1 of OutOfFuel \<Rightarrow> OutOfFuel | RangeError \<Rightarrow> RangeError
                | Done (r2, q2) \<Rightarrow>
                    if r2 = Null then Done (Null, pos) else Done (Arr [r1, r2], q2)))"
  by (simp add: sequence_def split: result.splits)

lemma tok_total: "\<exists>r q. makeStringParser s rule pos = Done (r, q)"
  by (simp add: makeStringParser_def)

lemma value_p_total: "\<exists>r q. value_p rule pos = Done (r, q)"
  by (simp add: value_p_def makeRegexParser_def split: option.splits)

lemma range_p_answers: "range_p rule pos \<noteq> OutOfFuel"
  using range_loop_not_OutOfFuel
  by (auto simp: range_p_def sequence_def value_p_def tok_range_def makeRegexParser_def
      makeStringParser_def Let_def split: result.splits option.splits)

lemma first_answers: "choice [range_p rule, value_p rule] pos \<noteq> OutOfFuel"
proof (cases "range_p rule pos")
  case OutOfFuel
  with range_p_answers show ?thesis by simp
next
  case RangeError
  then show ?thesis by simp
next
  case (Done a)
  obtain r q where a: "a = (r, q)" by (cases a)
  obtain r' q' where v: "value_p rule q = Done (r', q')"
    using value_p_total by blast
  from Done a v show ?thesis by simp
qed

lemma first_no_digit:
  assumes "\<not> (pos < length rule \<and> is_digit (rule ! pos))"
  shows "choice [range_p rule, value_p rule] pos = Done (Null, pos)"
proof -
  obtain r q where v: "value_p rule pos = Done (r, q)"
    using value_p_total by blast
  from digit_at [OF v] assms have r: "r = Null" by simp
  with forwardD [OF forward_tokens(21) v] have "q = pos" by simp
  with v r have v0: "value_p rule pos = Done (Null, pos)" by simp
  then have "range_p rule pos = Done (Null, pos)"
    by (simp add: range_p_def sequence_def)
  with v0 show ?thesis by simp
qed

lemma rangeList_first_fails:
  assumes "choice [range_p rule, value_p rule] pos = Done (Null, q)"
  shows "rangeList (Suc k) rule pos = Done (Null, pos)"
  using assms by (simp add: rangeList.simps sequence_two)

lemma rangeList_first_raises:
  assumes "choice [range_p rule, value_p rule] pos = RangeError"
  shows "rangeList (Suc k) rule pos = RangeError"
  using assms by (simp add: rangeList.simps sequence_two)

lemma rangeTail_no_tail:
  assumes nt: "\<not> tail_start rule pos"
  shows "rangeTail (Suc (Suc k)) rule pos = Done (Null, pos)"
proof -
  obtain c q where c: "tok_comma rule pos = Done (c, q)"
    using tok_total [of "'',''" rule pos] by (auto simp: tok_comma_def)
  show ?thesis
  proof (cases "c = Null")
    case True
    with c show ?thesis by (simp add: rangeTail.simps sequence_two)
  next
    case False
    with c have q: "q = Suc pos" by (rule comma_next)
    from comma_at [OF c] False nt q have "\<not> (q < length rule \<and> is_digit (rule ! q))"
      by (auto simp: tail_start_def)
    then have "choice [range_p rule, value_p rule] q = Done (Null, q)"
      by (rule first_no_digit)
    then have "rangeList (Suc k) rule q = Done (Null, q)"
      by (simp add: rangeList_first_fails)
    with c False show ?thesis by (simp add: rangeTail.simps sequence_two)
  qed
qed

lemma rangeList_answers:
  "length rule - pos + 3 \<le> fuel \<Longrightarrow> rangeList fuel rule pos \<noteq> OutOfFuel"
proof (induction fuel arbitrary: pos rule: less_induct)
  case (less fuel)
  from less.prems have "3 \<le> fuel" by simp
  then obtain k where "fuel = 3 + k" using le_Suc_ex by blast
  then have fuel: "fuel = Suc (Suc (Suc k))" by simp
  define j where "j = Suc k"
  define m where "m = Suc j"
  have fm: "fuel = Suc m" by (simp add: fuel m_def j_def)
  show ?case
  proof (cases "choice [range_p rule, value_p rule] pos")
    case OutOfFuel
    with first_answers show ?thesis by simp
  next
    case RangeError
    then show ?thesis by (simp add: fm rangeList_first_raises)
  next
    case (Done a)
    obtain r0 p1 where a: "a = (r0, p1)" by (cases a)
    with Done have f: "choice [range_p rule, value_p rule] pos = Done (r0, p1)" by simp
    show ?thesis
    proof (cases "r0 = Null")
      case True
      with f show ?thesis by (simp add: fm rangeList_first_fails)
    next
      case False
      from first_item_success [OF f False] have p1: "pos < p1" by blast
      have T: "nOrMore m 0 (rangeTail m rule) p1 \<noteq> OutOfFuel"
      proof -
        obtain c q where c: "tok_comma rule p1 = Done (c, q)"
          using tok_total [of "'',''" rule p1] by (auto simp: tok_comma_def)
        show ?thesis
        proof (cases "c = Null")
          case True
          with c have "rangeTail m rule p1 = Done (Null, p1)"
            by (simp add: m_def rangeTail.simps sequence_two)
          then show ?thesis by (simp add: nOrMore_def nOrMore_while_Null)
        next
          case False
          from makeStringParser_success [OF c [unfolded tok_comma_def] False]
          have q: "q = Suc p1" and tx: "text_at rule p1 q = '',''" by auto
          have "p1 < length rule"
            using tx q by (cases "p1 < length rule") (simp_all add: text_at_def)
          with p1 less.prems fm m_def have "length rule - q + 3 \<le> j" "j < fuel"
            using q by simp_all
          from less.IH [OF this(2,1)] have l0: "rangeList j rule q \<noteq> OutOfFuel" .
          show ?thesis
          proof (cases "rangeList j rule q")
            case OutOfFuel
            with l0 show ?thesis by simp
          next
            case RangeError
            with c False have "rangeTail m rule p1 = RangeError"
              by (simp add: m_def rangeTail.simps sequence_two)
            then show ?thesis by (simp add: nOrMore_def)
          next
            case (Done b)
            obtain r2 q2 where b: "b = (r2, q2)" by (cases b)
            with Done have l: "rangeList j rule q = Done (r2, q2)" by simp
            show ?thesis
            proof (cases "r2 = Null")
              case True
              with c False l have "rangeTail m rule p1 = Done (Null, p1)"
                by (simp add: m_def rangeTail.simps sequence_two)
              then show ?thesis by (simp add: nOrMore_def nOrMore_while_Null)
            next
              case r2: False
              from rangeList_Arr [OF l r2] obtain xs where xs: "r2 = Arr xs" by blast
              with c False l have t1: "rangeTail m rule p1 = Done (r2, q2)"
                by (simp add: m_def rangeTail.simps sequence_two)
              from rangeList_rangeTail_sound [of j rule] l r2 have "\<not> tail_start rule q2"
                by blast
              from rangeTail_no_tail [OF this, of k]
              have t2: "rangeTail m rule q2 = Done (Null, q2)"
                by (simp add: m_def j_def)
              have "nOrMore_while m (rangeTail m rule) [] r2 q2 = Done ([r2], q2)"
                using r2 t2 by (simp add: m_def nOrMore_while_Null)
              with t1 show ?thesis by (simp add: nOrMore_def)
            qed
          qed
        qed
      qed
      with f False show ?thesis
        by (auto simp: fm rangeList.simps sequence_two Let_def split: result.splits)
    qed
  qed
qed

subsection \<open>The driver never throws its parse error\<close>

text \<open>
  \<^verbatim>\<open>condition\<close> never returns \<^verbatim>\<open>null\<close>, so the \<^verbatim>\<open>Error\<close> of the driver is out of reach; what a
  call can throw is the \<^verbatim>\<open>RangeError\<close> of a range.
\<close>

lemma condition_never_Null: "condition fuel rule number pos \<noteq> Done (Null, pos')"
  using condition_Bool [of fuel rule number pos Null pos'] by auto

lemma pluralRuleParser_never_throws: "pluralRuleParser fuel rule number \<noteq> Some (Throw msg)"
  by (auto simp: pluralRuleParser_def start_def Let_def condition_never_Null
      split: result.splits option.splits if_splits)

subsection \<open>The calls of the combinators in the source\<close>

text \<open>
  The argument of each call of \<^verbatim>\<open>sequence\<close> in the source (in \<^verbatim>\<open>mod\<close>, \<^verbatim>\<open>not\<close>, \<^verbatim>\<open>is\<close>,
  \<^verbatim>\<open>isnot\<close>, \<^verbatim>\<open>not_in\<close>, \<^verbatim>\<open>rangeList\<close>, \<^verbatim>\<open>rangeTail\<close>, \<^verbatim>\<open>range\<close>, \<^verbatim>\<open>_in\<close>, \<^verbatim>\<open>within\<close>,
  \<^verbatim>\<open>and\<close>, \<^verbatim>\<open>or\<close>, \<^verbatim>\<open>condition\<close>) and of \<^verbatim>\<open>nOrMore\<close> consists of parsers that keep the
  cursor discipline.
\<close>

lemma grammar_invocations_forward:
  "list_all forward [operand rule number, whitespace rule,
                     choice [tok_mod rule, tok_percent rule], whitespace rule, value_p rule]"
  "list_all forward [whitespace rule, tok_not rule]"
  "list_all forward [expression rule number, whitespace rule, tok_is rule, whitespace rule,
                     value_p rule]"
  "list_all forward [expression rule number, whitespace rule,
                     choice [tok_isnot rule, tok_isnot_sign rule], whitespace rule, value_p rule]"
  "list_all forward [expression rule number, whitespace rule, tok_isnot_sign rule,
                     whitespace rule, rangeList fuel rule]"
  "list_all forward [choice [range_p rule, value_p rule], nOrMore fuel 0 (rangeTail fuel rule)]"
  "list_all forward [tok_comma rule, rangeList fuel rule]"
  "list_all forward [value_p rule, tok_range rule, value_p rule]"
  "list_all forward [expression rule number, nOrMore fuel 0 (not_p rule), whitespace rule,
                     choice [tok_in rule, tok_equal rule], whitespace rule, rangeList fuel rule]"
  "list_all forward [expression rule number, nOrMore fuel 0 (not_p rule), whitespace rule,
                     tok_within rule, whitespace rule, rangeList fuel rule]"
  "list_all forward [relation fuel rule number, whitespace rule, tok_and rule, whitespace rule,
                     condition fuel rule number]"
  "list_all forward [relation fuel rule number, whitespace rule, tok_or rule, whitespace rule,
                     condition fuel rule number]"
  "list_all forward [choice [and_p fuel rule number, or_p fuel rule number,
                             relation fuel rule number]]"
  "forward (rangeTail fuel rule)" "forward (not_p rule)"
  using forward_conditions [of fuel rule number]
  by (simp_all add: forward_tokens forward_operand forward_expression forward_choice
      forward_nOrMore forward_rangeList forward_rangeTail forward_not_p forward_range_p
      forward_relation)

subsection \<open>The rule n is 1 with a samples marker\<close>

text \<open>
  Cut at the \<^verbatim>\<open>@\<close>, the rule \<^verbatim>\<open>"n is 1@"\<close> is parsed, and it is true exactly for the number 1.
\<close>

lemma n_is_1_with_samples:
  "pluralRuleParser (Suc (Suc k)) ''n is 1@'' number = Some (Return (Bool (number = Fin 1)) [])"
proof -
  have r: "trim (substr ''n is 1@'' 0 (indexOf ''n is 1@'' CHR ''@'')) = ''n is 1''"
    by code_simp
  have e: "expression ''n is 1'' number 0 = Done (Num number, 1)"
    by (simp add: expression_def mod_p_def sequence_def operand_def n_p_def tok_n_def
        makeStringParser_def substr_def parseFloat_def whitespace_def makeRegexParser_def
        re_spaces_def is_space_def tok_mod_def tok_percent_def)
  have p: "parseInt (Str ''1'') = Fin 1"
    by code_simp
  have i: "is_p ''n is 1'' number 0 = Done (Bool (number = Fin 1), 6)"
    using e p
    apply (simp add: is_p_def sequence_def whitespace_def makeRegexParser_def
        re_spaces_def is_space_def tok_is_def makeStringParser_def substr_def value_p_def
        re_digits_def is_digit_def)
    by (cases number) auto
  have rel: "relation f ''n is 1'' number 0 = Done (Bool (number = Fin 1), 6)" for f
    using i by (simp add: relation_def)
  have w: "whitespace ''n is 1'' 6 = Done (Null, 6)"
    by (simp add: whitespace_def makeRegexParser_def re_spaces_def)
  have a: "and_p (Suc k) ''n is 1'' number 0 = Done (Null, 0)"
    using rel w by (simp add: and_p.simps sequence_def)
  have o: "or_p (Suc k) ''n is 1'' number 0 = Done (Null, 0)"
    using rel w by (simp add: or_p.simps sequence_def)
  have c: "condition (Suc (Suc k)) ''n is 1'' number 0 = Done (Bool (number = Fin 1), 6)"
    using a o rel by (simp add: condition.simps sequence_def)
  show ?thesis
    using c unfolding pluralRuleParser_def r Let_def start_def by simp
qed

subsection \<open>More fuel, same answer\<close>

lemma extends_refl [simp]: "extends p p"
  by (simp add: extends_def)

lemma extends_trans: "extends p q \<Longrightarrow> extends q r \<Longrightarrow> extends p r"
  unfolding extends_def by metis

lemma extendsI: "(\<And>pos. p pos \<noteq> OutOfFuel \<Longrightarrow> q pos = p pos) \<Longrightarrow> extends p q"
  unfolding extends_def by blast

lemma extendsD: "extends p q \<Longrightarrow> p pos = Done res \<Longrightarrow> q pos = Done res"
  unfolding extends_def by auto

lemma extendsR: "extends p q \<Longrightarrow> p pos = RangeError \<Longrightarrow> q pos = RangeError"
  unfolding extends_def by auto

lemma choice_extends: "list_all2 extends ps qs \<Longrightarrow> extends (choice ps) (choice qs)"
proof (induction rule: list_all2_induct)
  case Nil
  show ?case by simp
next
  case (Cons p ps q qs)
  show ?case
  proof (rule extendsI)
    fix pos
    assume a: "choice (p # ps) pos \<noteq> OutOfFuel"
    show "choice (q # qs) pos = choice (p # ps) pos"
    proof (cases "p pos")
      case OutOfFuel
      with a show ?thesis by simp
    next
      case RangeError
      with Cons(1) have "q pos = RangeError" by (rule extendsR)
      with RangeError show ?thesis by simp
    next
      case (Done y)
      obtain r pos' where y: "y = (r, pos')" by (cases y)
      from Cons(1) Done have q: "q pos = Done y" by (rule extendsD)
      show ?thesis
      proof (cases "r = Null")
        case True
        with a Done y have "choice ps pos' \<noteq> OutOfFuel" by simp
        with Cons.IH have "choice qs pos' = choice ps pos'" by (simp add: extends_def)
        with Done q y True show ?thesis by simp
      next
        case False
        with Done q y show ?thesis by simp
      qed
    qed
  qed
qed

lemma sequence_loop_extends:
  "list_all2 extends ps qs \<Longrightarrow> sequence_loop ps opos acc pos \<noteq> OutOfFuel \<Longrightarrow>
   sequence_loop qs opos acc pos = sequence_loop ps opos acc pos"
proof (induction arbitrary: acc pos rule: list_all2_induct)
  case Nil
  then show ?case by simp
next
  case (Cons p ps q qs)
  show ?case
  proof (cases "p pos")
    case OutOfFuel
    with Cons.prems show ?thesis by simp
  next
    case RangeError
    with Cons(1) have "q pos = RangeError" by (rule extendsR)
    with RangeError show ?thesis by simp
  next
    case (Done y)
    obtain r pos' where y: "y = (r, pos')" by (cases y)
    from Cons(1) Done have q: "q pos = Done y" by (rule extendsD)
    show ?thesis
    proof (cases "r = Null")
      case True
      with Done q y show ?thesis by simp
    next
      case False
      with Cons.prems Done y have "sequence_loop ps opos (acc @ [r]) pos' \<noteq> OutOfFuel" by simp
      from Cons.IH [OF this] Done q y False show ?thesis by simp
    qed
  qed
qed

lemma sequence_extends: "list_all2 extends ps qs \<Longrightarrow> extends (sequence ps) (sequence qs)"
  unfolding extends_def [of "sequence ps" "sequence qs"] sequence_def
  using sequence_loop_extends by blast

lemma nOrMore_while_extends:
  "extends p q \<Longrightarrow> nOrMore_while k p acc parsed pos \<noteq> OutOfFuel \<Longrightarrow> k \<le> k' \<Longrightarrow>
   nOrMore_while k' q acc parsed pos = nOrMore_while k p acc parsed pos"
proof (induction k arbitrary: k' acc parsed pos)
  case 0
  then have "parsed = Null" by (auto split: if_splits)
  then show ?case by (simp add: nOrMore_while_Null)
next
  case (Suc k)
  from Suc.prems(3) obtain k'' where k': "k' = Suc k''" and le: "k \<le> k''"
    by (cases k') auto
  show ?case
  proof (cases "parsed = Null")
    case True
    then show ?thesis by (simp add: nOrMore_while_Null)
  next
    case False
    show ?thesis
    proof (cases "p pos")
      case OutOfFuel
      with Suc.prems(2) False show ?thesis by simp
    next
      case RangeError
      with Suc.prems(1) have "q pos = RangeError" by (rule extendsR)
      with RangeError False show ?thesis by (simp add: k')
    next
      case (Done y)
      obtain parsed' pos' where y: "y = (parsed', pos')" by (cases y)
      from Suc.prems(1) Done have q: "q pos = Done y" by (rule extendsD)
      from Suc.prems(2) False Done y
      have "nOrMore_while k p (acc @ [parsed]) parsed' pos' \<noteq> OutOfFuel" by simp
      from Suc.IH [OF Suc.prems(1) this le] Done q y False show ?thesis by (simp add: k')
    qed
  qed
qed

lemma nOrMore_extends:
  assumes "extends p q" and "k \<le> k'"
  shows "extends (nOrMore k n p) (nOrMore k' n q)"
proof (rule extendsI)
  fix pos
  assume a: "nOrMore k n p pos \<noteq> OutOfFuel"
  show "nOrMore k' n q pos = nOrMore k n p pos"
  proof (cases "p pos")
    case OutOfFuel
    with a show ?thesis by (simp add: nOrMore_def)
  next
    case RangeError
    with assms(1) have "q pos = RangeError" by (rule extendsR)
    with RangeError show ?thesis by (simp add: nOrMore_def)
  next
    case (Done y)
    obtain parsed pos1 where y: "y = (parsed, pos1)" by (cases y)
    from assms(1) Done have q: "q pos = Done y" by (rule extendsD)
    from a Done y have "nOrMore_while k p [] parsed pos1 \<noteq> OutOfFuel"
      by (auto simp: nOrMore_def)
    from nOrMore_while_extends [OF assms(1) this assms(2)] Done q y
    show ?thesis by (simp add: nOrMore_def)
  qed
qed

lemma post_extends:
  assumes "extends p q"
    and "\<And>pos. X pos = (case p pos of OutOfFuel \<Rightarrow> OutOfFuel | RangeError \<Rightarrow> RangeError | Done y \<Rightarrow> F pos y)"
    and "\<And>pos. Y pos = (case q pos of OutOfFuel \<Rightarrow> OutOfFuel | RangeError \<Rightarrow> RangeError | Done y \<Rightarrow> F pos y)"
  shows "extends X Y"
proof (rule extendsI)
  fix pos
  assume "X pos \<noteq> OutOfFuel"
  then have "p pos \<noteq> OutOfFuel" unfolding assms(2) by auto
  with assms(1) have "q pos = p pos" by (simp add: extends_def)
  then show "Y pos = X pos" unfolding assms(2,3) by simp
qed

lemma rangeList_rangeTail_step:
  "extends (rangeList k rule) (rangeList (Suc k) rule) \<and>
   extends (rangeTail k rule) (rangeTail (Suc k) rule)"
proof (induction k)
  case 0
  show ?case by (simp add: extends_def rangeList.simps rangeTail.simps)
next
  case (Suc k)
  have "extends (sequence [choice [range_p rule, value_p rule], nOrMore k 0 (rangeTail k rule)])
          (sequence [choice [range_p rule, value_p rule],
                     nOrMore (Suc k) 0 (rangeTail (Suc k) rule)])"
    using Suc by (intro sequence_extends) (simp add: nOrMore_extends)
  then have 1: "extends (rangeList (Suc k) rule) (rangeList (Suc (Suc k)) rule)"
    by (rule post_extends) (simp_all add: rangeList.simps)
  have "extends (sequence [tok_comma rule, rangeList k rule])
          (sequence [tok_comma rule, rangeList (Suc k) rule])"
    using Suc by (intro sequence_extends) simp
  then have 2: "extends (rangeTail (Suc k) rule) (rangeTail (Suc (Suc k)) rule)"
    by (rule post_extends) (simp_all add: rangeTail.simps)
  from 1 2 show ?case by simp
qed

lemma rangeList_mono: "k \<le> k' \<Longrightarrow> extends (rangeList k rule) (rangeList k' rule)"
proof (induction rule: dec_induct)
  case base
  show ?case by simp
next
  case (step n)
  with rangeList_rangeTail_step [of n rule] show ?case by (blast intro: extends_trans)
qed


lemma not_in_mono: "k \<le> k' \<Longrightarrow> extends (not_in k rule number) (not_in k' rule number)"
proof -
  assume le: "k \<le> k'"
  have "extends (sequence [expression rule number, whitespace rule, tok_isnot_sign rule,
                     whitespace rule, rangeList k rule])
          (sequence [expression rule number, whitespace rule, tok_isnot_sign rule,
                     whitespace rule, rangeList k' rule])"
    using le by (intro sequence_extends) (simp add: rangeList_mono)
  then show ?thesis
    by (rule post_extends) (simp_all add: not_in_def)
qed

lemma in_p_mono: "k \<le> k' \<Longrightarrow> extends (in_p k rule number) (in_p k' rule number)"
proof -
  assume le: "k \<le> k'"
  have "extends (sequence [expression rule number, nOrMore k 0 (not_p rule), whitespace rule,
                     choice [tok_in rule, tok_equal rule], whitespace rule, rangeList k rule])
          (sequence [expression rule number, nOrMore k' 0 (not_p rule), whitespace rule,
                     choice [tok_in rule, tok_equal rule], whitespace rule, rangeList k' rule])"
    using le by (intro sequence_extends) (simp add: rangeList_mono nOrMore_extends)
  then show ?thesis
    by (rule post_extends) (simp_all add: in_p_def)
qed

lemma within_p_mono: "k \<le> k' \<Longrightarrow> extends (within_p k rule number) (within_p k' rule number)"
proof -
  assume le: "k \<le> k'"
  have "extends (sequence [expression rule number, nOrMore k 0 (not_p rule), whitespace rule,
                     tok_within rule, whitespace rule, rangeList k rule])
          (sequence [expression rule number, nOrMore k' 0 (not_p rule), whitespace rule,
                     tok_within rule, whitespace rule, rangeList k' rule])"
    using le by (intro sequence_extends) (simp add: rangeList_mono nOrMore_extends)
  then show ?thesis
    by (rule post_extends) (simp_all add: within_p_def)
qed

lemma relation_mono: "k \<le> k' \<Longrightarrow> extends (relation k rule number) (relation k' rule number)"
  unfolding relation_def
  by (intro choice_extends) (simp add: not_in_mono in_p_mono within_p_mono)

lemma conditions_step:
  "extends (and_p k rule number) (and_p (Suc k) rule number) \<and>
   extends (or_p k rule number) (or_p (Suc k) rule number) \<and>
   extends (condition k rule number) (condition (Suc k) rule number)"
proof (induction k)
  case 0
  show ?case by (simp add: extends_def and_p.simps or_p.simps condition.simps)
next
  case (Suc k)
  have "extends (sequence [relation k rule number, whitespace rule, tok_and rule,
                     whitespace rule, condition k rule number])
          (sequence [relation (Suc k) rule number, whitespace rule, tok_and rule,
                     whitespace rule, condition (Suc k) rule number])"
    using Suc by (intro sequence_extends) (simp add: relation_mono)
  then have 1: "extends (and_p (Suc k) rule number) (and_p (Suc (Suc k)) rule number)"
    by (rule post_extends) (simp_all add: and_p.simps)
  have "extends (sequence [relation k rule number, whitespace rule, tok_or rule,
                     whitespace rule, condition k rule number])
          (sequence [relation (Suc k) rule number, whitespace rule, tok_or rule,
                     whitespace rule, condition (Suc k) rule number])"
    using Suc by (intro sequence_extends) (simp add: relation_mono)
  then have 2: "extends (or_p (Suc k) rule number) (or_p (Suc (Suc k)) rule number)"
    by (rule post_extends) (simp_all add: or_p.simps)
  have "extends (sequence [choice [and_p k rule number, or_p k rule number,
                                   relation k rule number]])
          (sequence [choice [and_p (Suc k) rule number, or_p (Suc k) rule number,
                             relation (Suc k) rule number]])"
    using Suc by (intro sequence_extends) (simp add: choice_extends relation_mono)
  then have 3: "extends (condition (Suc k) rule number) (condition (Suc (Suc k)) rule number)"
    by (rule post_extends) (simp_all add: condition.simps)
  from 1 2 3 show ?case by simp
qed

lemma condition_mono:
  "k \<le> k' \<Longrightarrow> extends (condition k rule number) (condition k' rule number)"
proof (induction rule: dec_induct)
  case base
  show ?case by simp
next
  case (step n)
  with conditions_step [of n rule number] show ?case by (blast intro: extends_trans)
qed

lemma pluralRuleParser_mono:
  assumes "pluralRuleParser k rule number = Some out" and "k \<le> k'"
  shows "pluralRuleParser k' rule number = Some out"
proof (cases "trim (substr rule 0 (indexOf rule CHR ''@'')) = []")
  case True
  with assms show ?thesis by (simp add: pluralRuleParser_def)
next
  case False
  with assms(1) have
    "condition k (trim (substr rule 0 (indexOf rule CHR ''@''))) number 0 \<noteq> OutOfFuel"
    by (auto simp: pluralRuleParser_def start_def Let_def)
  with condition_mono [OF assms(2), of "trim (substr rule 0 (indexOf rule CHR ''@''))" number]
  have "condition k' (trim (substr rule 0 (indexOf rule CHR ''@''))) number 0
      = condition k (trim (substr rule 0 (indexOf rule CHR ''@''))) number 0"
    by (simp add: extends_def)
  with assms(1) False show ?thesis
    by (simp add: pluralRuleParser_def start_def Let_def)
qed

subsection \<open>Enough fuel\<close>

text \<open>
  Every call returns or throws when the fuel is at least twice the length of the rule plus
  five: the fuel does not run out. Tokens, operands, expressions and the relations without
  a range list always return; a production with a range list may raise instead.
\<close>

lemma returnsI: "p pos = Done res \<Longrightarrow> returns p pos"
  unfolding returns_def by blast

lemma returnsE: "returns p pos \<Longrightarrow> (\<And>r q. p pos = Done (r, q) \<Longrightarrow> thesis) \<Longrightarrow> thesis"
  unfolding returns_def by auto

lemma sequence_loop_returns:
  assumes "\<And>i q rs. i < length ps \<Longrightarrow> chain (take i ps) pos rs q \<Longrightarrow> \<exists>res. (ps ! i) q = Done res"
  shows "\<exists>res. sequence_loop ps opos acc pos = Done res"
  using assms
proof (induction ps arbitrary: pos acc)
  case Nil
  show ?case by simp
next
  case (Cons p ps)
  from Cons.prems [of 0 "[]" pos] obtain r q where p: "p pos = Done (r, q)" by auto
  show ?case
  proof (cases "r = Null")
    case True
    with p show ?thesis by simp
  next
    case False
    have "\<exists>res. sequence_loop ps opos (acc @ [r]) q = Done res"
    proof (rule Cons.IH)
      fix i q' rs
      assume i: "i < length ps" and c: "chain (take i ps) q rs q'"
      from c p False have "chain (take (Suc i) (p # ps)) pos (r # rs) q'" by simp
      with Cons.prems [of "Suc i" "r # rs" q'] i show "\<exists>res. (ps ! i) q' = Done res" by simp
    qed
    with p False show ?thesis by simp
  qed
qed

lemma sequence_returns:
  assumes fw: "list_all forward ps"
    and rt: "list_all (\<lambda>p. \<forall>q\<ge>pos. returns p q) ps"
  shows "returns (sequence ps) pos"
  unfolding sequence_def returns_def
proof (rule sequence_loop_returns)
  fix i q rs
  assume i: "i < length ps" and c: "chain (take i ps) pos rs q"
  have "\<forall>p\<in>set (take i ps). forward p"
    using fw by (auto simp: list_all_iff dest: in_set_takeD)
  from chain_forward [OF c this] have "pos \<le> q" .
  moreover from rt i have "\<forall>q\<ge>pos. returns (ps ! i) q"
    by (simp add: list_all_length)
  ultimately show "\<exists>res. (ps ! i) q = Done res" unfolding returns_def by blast
qed

lemma choice_returns:
  assumes "list_all forward ps" and "list_all (\<lambda>p. returns p pos) ps"
  shows "returns (choice ps) pos"
  using assms
proof (induction ps)
  case Nil
  show ?case by (simp add: returns_def)
next
  case (Cons p ps)
  then obtain r q where p: "p pos = Done (r, q)" by (auto elim: returnsE)
  show ?case
  proof (cases "r = Null")
    case True
    with Cons.prems p have "q = pos" by (auto dest: forwardD)
    with Cons p True show ?thesis by (simp add: returns_def)
  next
    case False
    with p show ?thesis by (simp add: returns_def)
  qed
qed

lemma whitespace_strict:
  assumes "whitespace rule pos = Done (r, pos')" and "r \<noteq> Null"
  shows "pos < pos' \<and> pos' \<le> length rule"
proof -
  define m where "m = takeWhile is_space (drop pos rule)"
  from assms have m: "m \<noteq> []" "pos' = pos + length m"
    by (auto simp: whitespace_def makeRegexParser_def re_spaces_def Let_def m_def
        split: result.splits option.splits if_splits)
  have "length m \<le> length (drop pos rule)"
    unfolding m_def by (rule length_takeWhile_le)
  with m show ?thesis by (cases m) auto
qed

lemma token_bounded:
  assumes "makeStringParser s rule pos = Done (r, pos')" and "r \<noteq> Null" and "s \<noteq> []"
  shows "pos < pos' \<and> pos' \<le> length rule"
proof -
  from assms have t: "take (length s) (drop pos rule) = s" and p: "pos' = pos + length s"
    by (auto simp: makeStringParser_def substr_def split: if_splits)
  have "length (take (length s) (drop pos rule)) = length s" using t by simp
  then have "length s \<le> length rule - pos" by simp
  with p assms(3) show ?thesis by (cases s) auto
qed

lemma not_p_strict:
  assumes "not_p rule pos = Done (r, pos')" and "r \<noteq> Null"
  shows "pos < pos' \<and> pos' \<le> length rule"
proof -
  from assms obtain result where
    seq: "sequence [whitespace rule, tok_not rule] pos = Done (result, pos')" and
    res: "result \<noteq> Null"
    by (auto simp: not_p_def split: result.splits option.splits if_splits)
  from sequence_cases [OF seq] res obtain r1 r2 q where
    1: "whitespace rule pos = Done (r1, q)" "r1 \<noteq> Null" and
    2: "tok_not rule q = Done (r2, pos')" "r2 \<noteq> Null"
    by auto
  from whitespace_strict [OF 1] token_bounded [OF 2(1) [unfolded tok_not_def] 2(2)]
  show ?thesis by simp
qed

lemma nOrMore_while_returns:
  assumes total: "\<And>q. \<exists>res. p q = Done res"
    and strict: "\<And>q r q'. p q = Done (r, q') \<Longrightarrow> r \<noteq> Null \<Longrightarrow> q < q' \<and> q' \<le> length rule"
  shows "length rule - pos + 1 \<le> fuel \<Longrightarrow>
         \<exists>res. nOrMore_while fuel p acc parsed pos = Done res"
proof (induction fuel arbitrary: acc parsed pos)
  case 0
  then show ?case by simp
next
  case (Suc fuel)
  show ?case
  proof (cases "parsed = Null")
    case True
    then show ?thesis by simp
  next
    case False
    from total [of pos] obtain parsed' pos' where p: "p pos = Done (parsed', pos')" by auto
    show ?thesis
    proof (cases "parsed' = Null")
      case True
      with p False show ?thesis by (simp add: nOrMore_while_Null)
    next
      case n: False
      from strict [OF p n] Suc.prems have "length rule - pos' + 1 \<le> fuel" by linarith
      from Suc.IH [OF this] p False show ?thesis by simp
    qed
  qed
qed

lemma nOrMore_returns:
  assumes total: "\<And>q. returns p q"
    and strict: "\<And>q r q'. p q = Done (r, q') \<Longrightarrow> r \<noteq> Null \<Longrightarrow> q < q' \<and> q' \<le> length rule"
    and fuel: "length rule - pos + 1 \<le> fuel"
  shows "returns (nOrMore fuel n p) pos"
proof -
  from total [of pos] obtain parsed pos1 where p: "p pos = Done (parsed, pos1)"
    by (auto elim: returnsE)
  have "\<exists>res. nOrMore_while fuel p [] parsed pos1 = Done res"
  proof (cases "parsed = Null")
    case True
    then show ?thesis by (simp add: nOrMore_while_Null)
  next
    case False
    from strict [OF p False] fuel have b: "length rule - pos1 + 1 \<le> fuel" by linarith
    show ?thesis
    proof (rule nOrMore_while_returns [where rule = rule])
      show "\<And>q. \<exists>res. p q = Done res" using total by (simp add: returns_def)
      show "\<And>q r q'. p q = Done (r, q') \<Longrightarrow> r \<noteq> Null \<Longrightarrow> q < q' \<and> q' \<le> length rule"
        by (rule strict)
      show "length rule - pos1 + 1 \<le> fuel" by (rule b)
    qed
  qed
  with p show ?thesis by (auto simp: nOrMore_def returns_def)
qed

lemma returns_post:
  assumes "returns S pos"
    and "X pos = (case S pos of OutOfFuel \<Rightarrow> OutOfFuel | RangeError \<Rightarrow> RangeError | Done y \<Rightarrow> Done (F y))"
  shows "returns X pos"
  using assms by (auto simp: returns_def)

lemma tokens_total:
  "returns (whitespace rule) pos" "returns (value_p rule) pos"
  "returns (tok_is rule) pos" "returns (tok_isnot rule) pos"
  "returns (tok_isnot_sign rule) pos" "returns (tok_equal rule) pos"
  "returns (tok_mod rule) pos" "returns (tok_percent rule) pos"
  "returns (tok_not rule) pos" "returns (tok_in rule) pos"
  "returns (tok_within rule) pos" "returns (tok_range rule) pos"
  "returns (tok_comma rule) pos" "returns (tok_or rule) pos"
  "returns (tok_and rule) pos"
  by (simp_all add: returns_def whitespace_def value_p_def makeRegexParser_def
      makeStringParser_def
      tok_is_def tok_isnot_def tok_isnot_sign_def tok_equal_def tok_mod_def tok_percent_def
      tok_not_def tok_in_def tok_within_def tok_range_def tok_comma_def tok_or_def tok_and_def
      split: result.splits option.splits)

lemma operands_total:
  "returns (n_p rule number) pos" "returns (i_p rule number) pos"
  "returns (f_p rule number) pos" "returns (t_p rule number) pos"
  "returns (v_p rule number) pos" "returns (w_p rule number) pos"
  by (simp_all add: returns_def n_p_def i_p_def f_p_def t_p_def v_p_def w_p_def
      tok_n_def tok_i_def tok_f_def tok_t_def tok_v_def makeStringParser_def)

lemma operand_total: "returns (operand rule number) pos"
  unfolding operand_def
  by (rule choice_returns)
     (simp_all add: operands_total forward_n_p forward_i_p forward_f_p forward_t_p
        forward_v_p forward_w_p)

lemma choice_tokens_total:
  "returns (choice [tok_mod rule, tok_percent rule]) pos"
  "returns (choice [tok_isnot rule, tok_isnot_sign rule]) pos"
  "returns (choice [tok_in rule, tok_equal rule]) pos"
  by (rule choice_returns; simp add: tokens_total forward_tokens)+

lemma mod_p_total: "returns (mod_p rule number) pos"
proof -
  have "returns (sequence [operand rule number, whitespace rule,
      choice [tok_mod rule, tok_percent rule], whitespace rule, value_p rule]) pos"
    by (rule sequence_returns)
       (simp_all add: forward_operand forward_tokens forward_choice operand_total
          tokens_total choice_tokens_total)
  then show ?thesis by (auto simp: mod_p_def returns_def)
qed

lemma expression_total: "returns (expression rule number) pos"
  unfolding expression_def
  by (rule choice_returns)
     (simp_all add: mod_p_total operand_total forward_mod_p forward_operand)

lemma not_p_total: "returns (not_p rule) pos"
proof -
  have "returns (sequence [whitespace rule, tok_not rule]) pos"
    by (rule sequence_returns) (simp_all add: forward_tokens tokens_total)
  then show ?thesis by (auto simp: not_p_def returns_def)
qed

lemma is_p_total: "returns (is_p rule number) pos"
proof -
  have "returns (sequence [expression rule number, whitespace rule, tok_is rule,
      whitespace rule, value_p rule]) pos"
    by (rule sequence_returns)
       (simp_all add: forward_expression forward_tokens expression_total tokens_total)
  then show ?thesis by (auto simp: is_p_def returns_def)
qed

lemma isnot_total: "returns (isnot rule number) pos"
proof -
  have "returns (sequence [expression rule number, whitespace rule,
      choice [tok_isnot rule, tok_isnot_sign rule], whitespace rule, value_p rule]) pos"
    by (rule sequence_returns)
       (simp_all add: forward_expression forward_tokens forward_choice expression_total
          tokens_total choice_tokens_total)
  then show ?thesis by (auto simp: isnot_def returns_def)
qed

lemma nots_returns:
  "length rule - pos + 1 \<le> fuel \<Longrightarrow> returns (nOrMore fuel 0 (not_p rule)) pos"
proof (rule nOrMore_returns [where rule = rule])
  show "\<And>q. returns (not_p rule) q" by (rule not_p_total)
  show "\<And>q r q'. not_p rule q = Done (r, q') \<Longrightarrow> r \<noteq> Null \<Longrightarrow> q < q' \<and> q' \<le> length rule"
    by (rule not_p_strict)
qed

lemma returns_answers: "returns p pos \<Longrightarrow> answers p pos"
  by (auto simp: returns_def answers_def)

lemma sequence_loop_answers:
  assumes "\<And>i q rs. i < length ps \<Longrightarrow> chain (take i ps) pos rs q \<Longrightarrow> (ps ! i) q \<noteq> OutOfFuel"
  shows "sequence_loop ps opos acc pos \<noteq> OutOfFuel"
  using assms
proof (induction ps arbitrary: pos acc)
  case Nil
  show ?case by simp
next
  case (Cons p ps)
  show ?case
  proof (cases "p pos")
    case OutOfFuel
    with Cons.prems [of 0 "[]" pos] show ?thesis by simp
  next
    case RangeError
    then show ?thesis by simp
  next
    case (Done y)
    obtain r q where y: "y = (r, q)" by (cases y)
    with Done have p: "p pos = Done (r, q)" by simp
    show ?thesis
    proof (cases "r = Null")
      case True
      with p show ?thesis by simp
    next
      case False
      have "sequence_loop ps opos (acc @ [r]) q \<noteq> OutOfFuel"
      proof (rule Cons.IH)
        fix i q' rs
        assume i: "i < length ps" and c: "chain (take i ps) q rs q'"
        from c p False have "chain (take (Suc i) (p # ps)) pos (r # rs) q'" by simp
        with Cons.prems [of "Suc i" "r # rs" q'] i show "(ps ! i) q' \<noteq> OutOfFuel" by simp
      qed
      with p False show ?thesis by simp
    qed
  qed
qed

lemma sequence_answers:
  assumes fw: "list_all forward ps"
    and rt: "list_all (\<lambda>p. \<forall>q\<ge>pos. answers p q) ps"
  shows "answers (sequence ps) pos"
  unfolding sequence_def answers_def
proof (rule sequence_loop_answers)
  fix i q rs
  assume i: "i < length ps" and c: "chain (take i ps) pos rs q"
  have "\<forall>p\<in>set (take i ps). forward p"
    using fw by (auto simp: list_all_iff dest: in_set_takeD)
  from chain_forward [OF c this] have "pos \<le> q" .
  moreover from rt i have "\<forall>q\<ge>pos. answers (ps ! i) q"
    by (simp add: list_all_length)
  ultimately show "(ps ! i) q \<noteq> OutOfFuel" unfolding answers_def by blast
qed

lemma choice_answers:
  assumes "list_all forward ps" and "list_all (\<lambda>p. answers p pos) ps"
  shows "answers (choice ps) pos"
  using assms
proof (induction ps)
  case Nil
  show ?case by (simp add: answers_def)
next
  case (Cons p ps)
  show ?case
  proof (cases "p pos")
    case OutOfFuel
    with Cons.prems show ?thesis by (simp add: answers_def)
  next
    case RangeError
    then show ?thesis by (simp add: answers_def)
  next
    case (Done y)
    obtain r q where y: "y = (r, q)" by (cases y)
    with Done have p: "p pos = Done (r, q)" by simp
    show ?thesis
    proof (cases "r = Null")
      case True
      with Cons.prems p have "q = pos" by (auto dest: forwardD)
      with Cons p True show ?thesis by (simp add: answers_def)
    next
      case False
      with p show ?thesis by (simp add: answers_def)
    qed
  qed
qed

lemma answers_post:
  assumes "answers S pos"
    and "X pos = (case S pos of OutOfFuel \<Rightarrow> OutOfFuel | RangeError \<Rightarrow> RangeError
                  | Done y \<Rightarrow> Done (F y))"
  shows "answers X pos"
  using assms by (auto simp: answers_def split: result.splits)

lemma relation_answers:
  assumes fuel: "length rule - pos + 3 \<le> fuel"
  shows "answers (relation fuel rule number) pos"
proof -
  have rl: "answers (rangeList fuel rule) q" if "pos \<le> q" for q
    unfolding answers_def using that fuel by (intro rangeList_answers) linarith
  have nm: "answers (nOrMore fuel 0 (not_p rule)) q" if "pos \<le> q" for q
    using that fuel by (intro returns_answers nots_returns) linarith
  note tk = tokens_total [THEN returns_answers] expression_total [THEN returns_answers]
    choice_tokens_total [THEN returns_answers]
  have "answers (sequence [expression rule number, whitespace rule, tok_isnot_sign rule,
                     whitespace rule, rangeList fuel rule]) pos"
    by (rule sequence_answers)
       (simp_all add: forward_expression forward_tokens forward_rangeList tk rl)
  then have 1: "answers (not_in fuel rule number) pos"
    by (auto simp: not_in_def answers_def split: result.splits)
  have "answers (sequence [expression rule number, nOrMore fuel 0 (not_p rule),
                     whitespace rule, choice [tok_in rule, tok_equal rule], whitespace rule,
                     rangeList fuel rule]) pos"
    by (rule sequence_answers)
       (simp_all add: forward_expression forward_tokens forward_rangeList forward_choice
          forward_nOrMore forward_not_p tk rl nm)
  then have 2: "answers (in_p fuel rule number) pos"
    by (auto simp: in_p_def answers_def split: result.splits)
  have "answers (sequence [expression rule number, nOrMore fuel 0 (not_p rule),
                     whitespace rule, tok_within rule, whitespace rule,
                     rangeList fuel rule]) pos"
    by (rule sequence_answers)
       (simp_all add: forward_expression forward_tokens forward_rangeList
          forward_nOrMore forward_not_p tk rl nm)
  then have 3: "answers (within_p fuel rule number) pos"
    by (auto simp: within_p_def Let_def answers_def split: result.splits)
  show ?thesis
    unfolding relation_def
    by (rule choice_answers)
       (simp_all add: 1 2 3 is_p_total [THEN returns_answers] isnot_total [THEN returns_answers]
          forward_is_p forward_not_in forward_isnot forward_in_p forward_within_p)
qed


lemma sequence5_answers:
  assumes a: "answers a pos" and b: "\<And>q. returns b q" and c: "\<And>q. returns c q"
    and d: "\<And>q. returns d q"
    and e: "\<And>r1 q1 r2 q2 r3 q3 r4 q. a pos = Done (r1, q1) \<Longrightarrow> b q1 = Done (r2, q2) \<Longrightarrow>
        r2 \<noteq> Null \<Longrightarrow> c q2 = Done (r3, q3) \<Longrightarrow> r3 \<noteq> Null \<Longrightarrow> d q3 = Done (r4, q) \<Longrightarrow>
        r4 \<noteq> Null \<Longrightarrow> answers e q"
  shows "answers (sequence [a, b, c, d, e]) pos"
proof (cases "a pos")
  case OutOfFuel
  with a show ?thesis by (simp add: answers_def)
next
  case RangeError
  then show ?thesis by (simp add: answers_def sequence_def)
next
  case (Done y)
  obtain r1 q1 where "y = (r1, q1)" by (cases y)
  with Done have 1: "a pos = Done (r1, q1)" by simp
  from b obtain r2 q2 where 2: "b q1 = Done (r2, q2)" by (rule returnsE)
  from c obtain r3 q3 where 3: "c q2 = Done (r3, q3)" by (rule returnsE)
  from d obtain r4 q4 where 4: "d q3 = Done (r4, q4)" by (rule returnsE)
  show ?thesis
  proof (cases "r1 = Null \<or> r2 = Null \<or> r3 = Null \<or> r4 = Null")
    case True
    with 1 2 3 4 show ?thesis
      by (auto simp: answers_def sequence_def)
  next
    case False
    with e [OF 1 2 _ 3 _ 4] have "e q4 \<noteq> OutOfFuel" by (simp add: answers_def)
    with 1 2 3 4 False show ?thesis
      by (auto simp: answers_def sequence_def split: result.splits)
  qed
qed

lemma sequence1_answers: "answers a pos \<Longrightarrow> answers (sequence [a]) pos"
  by (auto simp: answers_def sequence_def split: result.splits)

lemma condition_answers:
  "2 * (length rule - pos) + 5 \<le> fuel \<Longrightarrow> answers (condition fuel rule number) pos"
proof (induction fuel arbitrary: pos rule: less_induct)
  case (less fuel)
  from less.prems have "2 \<le> fuel" by simp
  then obtain k where "fuel = 2 + k" using le_Suc_ex by blast
  then have fuel: "fuel = Suc (Suc k)" by simp
  with less.prems have k: "2 * (length rule - pos) + 3 \<le> k" by simp
  then have kr: "length rule - pos + 3 \<le> k" by simp
  have R: "answers (relation k rule number) pos"
    using kr by (rule relation_answers)
  have C: "answers (condition k rule number) q"
    if 1: "relation k rule number pos = Done (r1, q1)"
      and 2: "whitespace rule q1 = Done (r2, q2)" "r2 \<noteq> Null"
      and 4: "whitespace rule q3 = Done (r4, q)" "r4 \<noteq> Null"
      and 3: "q2 \<le> q3"
    for r1 q1 r2 q2 r4 q3 q
  proof -
    from forwardD [OF forward_relation 1] have "pos \<le> q1" by simp
    moreover from whitespace_strict [OF 2] have "q1 < q2" by simp
    moreover from whitespace_strict [OF 4] have "q3 < q" "q \<le> length rule" by simp_all
    ultimately have "pos < q" "q \<le> length rule" using 3 by simp_all
    with k have "2 * (length rule - q) + 5 \<le> k" by linarith
    moreover have "k < fuel" by (simp add: fuel)
    ultimately show ?thesis by (rule less.IH [rotated])
  qed
  have "answers (sequence [relation k rule number, whitespace rule, tok_and rule,
                           whitespace rule, condition k rule number]) pos"
  proof (rule sequence5_answers [OF R])
    fix r1 q1 r2 q2 r3 q3 r4 q
    assume 1: "relation k rule number pos = Done (r1, q1)"
      and 2: "whitespace rule q1 = Done (r2, q2)" "r2 \<noteq> Null"
      and 3: "tok_and rule q2 = Done (r3, q3)" "r3 \<noteq> Null"
      and 4: "whitespace rule q3 = Done (r4, q)" "r4 \<noteq> Null"
    from forwardD [OF forward_tokens(19) 3(1)] have "q2 \<le> q3" by simp
    from C [OF 1 2 4 this] show "answers (condition k rule number) q" .
  qed (rule tokens_total)+
  then have A: "answers (and_p (Suc k) rule number) pos"
    by (auto simp: and_p.simps answers_def split: result.splits)
  have "answers (sequence [relation k rule number, whitespace rule, tok_or rule,
                           whitespace rule, condition k rule number]) pos"
  proof (rule sequence5_answers [OF R])
    fix r1 q1 r2 q2 r3 q3 r4 q
    assume 1: "relation k rule number pos = Done (r1, q1)"
      and 2: "whitespace rule q1 = Done (r2, q2)" "r2 \<noteq> Null"
      and 3: "tok_or rule q2 = Done (r3, q3)" "r3 \<noteq> Null"
      and 4: "whitespace rule q3 = Done (r4, q)" "r4 \<noteq> Null"
    from forwardD [OF forward_tokens(18) 3(1)] have "q2 \<le> q3" by simp
    from C [OF 1 2 4 this] show "answers (condition k rule number) q" .
  qed (rule tokens_total)+
  then have O: "answers (or_p (Suc k) rule number) pos"
    by (auto simp: or_p.simps answers_def split: result.splits)
  have R': "answers (relation (Suc k) rule number) pos"
    using kr by (intro relation_answers) simp
  have "answers (choice [and_p (Suc k) rule number, or_p (Suc k) rule number,
                         relation (Suc k) rule number]) pos"
    using forward_conditions [of "Suc k" rule number]
    by (intro choice_answers) (simp_all add: A O R' forward_relation)
  then have "answers (sequence [choice [and_p (Suc k) rule number, or_p (Suc k) rule number,
                         relation (Suc k) rule number]]) pos"
    by (rule sequence1_answers)
  then show ?case
    by (auto simp: fuel condition.simps answers_def split: result.splits)
qed

lemma length_cut_rule: "length (trim (substr rule 0 i)) \<le> length rule"
proof -
  have "length (trim s) \<le> length s" for s
  proof -
    have "length (dropWhile is_space (rev (dropWhile is_space s)))
          \<le> length (rev (dropWhile is_space s))"
      by (rule length_dropWhile_le)
    also have "\<dots> \<le> length s"
      by (simp add: length_dropWhile_le)
    finally show ?thesis by (simp add: trim_def)
  qed
  from this [of "substr rule 0 i"] show ?thesis
    by (simp add: substr_def)
qed

lemma pluralRuleParser_returns:
  assumes "2 * length rule + 5 \<le> fuel"
  shows "\<exists>out. pluralRuleParser fuel rule number = Some out"
proof -
  define cut where "cut = trim (substr rule 0 (indexOf rule CHR ''@''))"
  have "length cut \<le> length rule" unfolding cut_def by (rule length_cut_rule)
  with assms have "2 * (length cut - 0) + 5 \<le> fuel" by simp
  from condition_answers [OF this, of number]
  have "condition fuel cut number 0 \<noteq> OutOfFuel" by (simp add: answers_def)
  then show ?thesis
    by (auto simp: pluralRuleParser_def start_def Let_def cut_def [symmetric]
        split: result.splits)
qed

subsection \<open>The integers of the elements of a range list\<close>

text \<open>
  \<^verbatim>\<open>parseInt\<close> reads a digit string as the double nearest to its integer, and an integer from
  0 to \<open>2^53\<close> as itself (the number is printed in full and read back). An element of a range
  list is a digit string or an integer of a range.
\<close>

lemma digit_chars:
  "digit_char 0 = CHR ''0''" "digit_char 1 = CHR ''1''" "digit_char 2 = CHR ''2''"
  "digit_char 3 = CHR ''3''" "digit_char 4 = CHR ''4''" "digit_char 5 = CHR ''5''"
  "digit_char 6 = CHR ''6''" "digit_char 7 = CHR ''7''" "digit_char 8 = CHR ''8''"
  "digit_char 9 = CHR ''9''"
  by code_simp+

lemma digit_cases:
  "0 \<le> d \<Longrightarrow> d < 10 \<Longrightarrow>
   d = 0 \<or> d = 1 \<or> d = 2 \<or> d = 3 \<or> d = 4 \<or> d = 5 \<or> d = 6 \<or> d = 7 \<or> d = 8 \<or> d = (9::int)"
  by arith

lemma digit_char_is_digit: "0 \<le> d \<Longrightarrow> d < 10 \<Longrightarrow> is_digit (digit_char d)"
  by (drule (1) digit_cases) (auto simp: digit_chars is_digit_def)

lemma digit_val_digit_char: "0 \<le> d \<Longrightarrow> d < 10 \<Longrightarrow> digit_val (digit_char d) = d"
  by (drule (1) digit_cases) (auto simp: digit_chars digit_val_def)

lemma digits_nonempty: "digits n \<noteq> []"
  by (subst digits.simps) simp

lemma digits_digit_string: "0 \<le> n \<Longrightarrow> digit_string (digits n)"
proof (induction n rule: digits.induct)
  case (1 n)
  show ?case
  proof (cases "n < 10")
    case True
    with 1 show ?thesis
      by (subst digits.simps) (simp add: digit_string_def digit_char_is_digit)
  next
    case False
    with 1 have "digit_string (digits (n div 10))" by simp
    moreover have "is_digit (digit_char (n mod 10))"
      by (rule digit_char_is_digit) simp_all
    ultimately show ?thesis
      using False by (subst digits.simps) (simp add: digit_string_def)
  qed
qed

lemma parse_digits_snoc: "parse_digits (ds @ [c]) = parse_digits ds * 10 + digit_val c"
  by (simp add: parse_digits_def)

lemma parse_digits_digits: "0 \<le> n \<Longrightarrow> parse_digits (digits n) = n"
proof (induction n rule: digits.induct)
  case (1 n)
  show ?case
  proof (cases "n < 10")
    case True
    with 1 show ?thesis
      by (subst digits.simps) (simp add: parse_digits_def digit_val_digit_char)
  next
    case False
    with 1 have "parse_digits (digits (n div 10)) = n div 10" by simp
    moreover have "digit_val (digit_char (n mod 10)) = n mod 10"
      by (rule digit_val_digit_char) simp_all
    ultimately show ?thesis
      using False by (subst digits.simps) (simp add: parse_digits_snoc)
  qed
qed

lemma digits_bounds:
  "0 < n \<Longrightarrow> 10 ^ (length (digits n) - 1) \<le> n \<and> n < 10 ^ length (digits n)"
proof (induction n rule: digits.induct)
  case (1 n)
  show ?case
  proof (cases "n < 10")
    case True
    with 1 show ?thesis by (subst (1 2) digits.simps) simp
  next
    case False
    then have pos: "0 < n div 10" by simp
    with 1 False have IH: "10 ^ (length (digits (n div 10)) - 1) \<le> n div 10"
      "n div 10 < 10 ^ length (digits (n div 10))" by simp_all
    have len: "length (digits n) = Suc (length (digits (n div 10)))"
      using False by (subst digits.simps) simp
    have ne: "length (digits (n div 10)) \<noteq> 0" using digits_nonempty by simp
    then obtain m where m: "length (digits (n div 10)) = Suc m" by (cases "length (digits (n div 10))") auto
    from IH(1) m have "10 * 10 ^ m \<le> 10 * (n div 10)" by simp
    also have "\<dots> \<le> n" by simp
    finally have lo: "(10::int) ^ Suc m \<le> n" by simp
    from IH(2) have "n div 10 + 1 \<le> 10 ^ Suc m" using m by simp
    then have "10 * (n div 10) + 10 \<le> 10 * 10 ^ Suc m" by simp
    moreover have "n < 10 * (n div 10) + 10"
      by (metis add.commute add_strict_left_mono mult.commute mult_div_mod_eq pos_mod_bound zero_less_numeral)
    ultimately have hi: "n < 10 ^ Suc (Suc m)" by simp
    from lo hi len m show ?thesis by simp
  qed
qed

lemma digits_times_ten: "0 < n \<Longrightarrow> digits (n * 10) = digits n @ ''0''"
  by (subst digits.simps) (simp add: digit_chars)

lemma digits_times_power: "0 < n \<Longrightarrow> digits (n * 10 ^ m) = digits n @ replicate m CHR ''0''"
proof (induction m)
  case 0
  show ?case by simp
next
  case (Suc m)
  have "digits (n * 10 ^ Suc m) = digits ((n * 10 ^ m) * 10)" by (simp add: ac_simps)
  also have "\<dots> = digits (n * 10 ^ m) @ ''0''"
    using Suc.prems by (intro digits_times_ten) simp
  also have "\<dots> = digits n @ replicate (Suc m) CHR ''0''"
    using Suc by (simp add: replicate_append_same)
  finally show ?case .
qed

lemma strip_pad:
  "rev (dropWhile (\<lambda>c. c = z) (rev ds)) @ replicate (length (takeWhile (\<lambda>c. c = z) (rev ds))) z
     = ds"
proof -
  have t: "takeWhile (\<lambda>c. c = z) xs = replicate (length (takeWhile (\<lambda>c. c = z) xs)) z" for xs
    by (induction xs) auto
  have "rev ds = takeWhile (\<lambda>c. c = z) (rev ds) @ dropWhile (\<lambda>c. c = z) (rev ds)" by simp
  then have "ds = rev (dropWhile (\<lambda>c. c = z) (rev ds)) @ rev (takeWhile (\<lambda>c. c = z) (rev ds))"
    by (metis rev_append rev_rev_ident)
  also have "rev (takeWhile (\<lambda>c. c = z) (rev ds))
      = replicate (length (takeWhile (\<lambda>c. c = z) (rev ds))) z"
    by (subst t) simp
  finally show ?thesis by simp
qed


lemma dropWhile_replicate_append:
  "dropWhile (\<lambda>c. c = z) (replicate m z @ xs) = dropWhile (\<lambda>c. c = z) xs"
  by (induction m) simp_all

lemma num_to_string_int:
  assumes "0 \<le> i" and "i < 10 ^ 17"
  shows "num_to_string (Fin (of_int i)) = digits i"
proof (cases "i = 0")
  case True
  then show ?thesis
    by (simp add: num_to_string_def digits.simps digit_chars)
next
  case False
  with assms have pos: "0 < i" by simp
  define L where "L = length (digits i)"
  from digits_bounds [OF pos] have lo: "10 ^ (L - 1) \<le> i" and hi: "i < 10 ^ L"
    by (simp_all add: L_def)
  have L1: "1 \<le> L" using digits_nonempty [of i] by (cases "digits i") (simp_all add: L_def)
  have lt: "(10::int) ^ (L - 1) < 10 ^ 17"
    using lo assms(2) by (rule le_less_trans)
  have "L - 1 < 17"
    by (rule power_less_imp_less_exp [OF _ lt]) simp
  with L1 have L17: "L \<le> 17" by simp
  have d1: "length (digits 1) = 1" by (simp add: digits.simps)
  have "\<not> (of_int i :: rat) < 10 ^ (L - 1)"
  proof -
    from lo have "(of_int (10 ^ (L - 1)) :: rat) \<le> of_int i" by (simp only: of_int_le_iff)
    then show ?thesis by simp
  qed
  then have n: "dec_exponent (of_int i) = int L"
    using L1 by (simp add: dec_exponent_def quotient_of_int d1 L_def [symmetric] pow10_def
        nat_diff_distrib')
  define m where "m = 17 - L"
  have p: "pow10 (17 - int L) = 10 ^ m"
    using L17 by (simp add: pow10_def m_def nat_diff_distrib')
  have "(of_int i :: rat) * 10 ^ m = of_int (i * 10 ^ m)" by simp
  then have fl: "\<lfloor>(of_int i :: rat) * 10 ^ m\<rfloor> = i * 10 ^ m"
    by (simp only: floor_of_int)
  define s where "s = rev (dropWhile (\<lambda>c. c = CHR ''0'') (rev (digits i)))"
  have sd: "sig_digits (of_int i) (int L) = s"
    by (simp add: sig_digits_def p fl digits_times_power [OF pos] dropWhile_replicate_append
        s_def)
  have len: "length s + length (takeWhile (\<lambda>c. c = CHR ''0'') (rev (digits i))) = L"
  proof -
    have "length (takeWhile (\<lambda>c. c = CHR ''0'') (rev (digits i)))
        + length (dropWhile (\<lambda>c. c = CHR ''0'') (rev (digits i))) = length (rev (digits i))"
      by (simp only: length_append [symmetric] takeWhile_dropWhile_id)
    then show ?thesis by (simp add: s_def L_def)
  qed
  then have k: "int (length s) \<le> int L"
    and pad: "nat (int L - int (length s))
        = length (takeWhile (\<lambda>c. c = CHR ''0'') (rev (digits i)))"
    by simp_all
  have "pos_to_string (of_int i) = s @ replicate (nat (int L - int (length s))) CHR ''0''"
    using k L17 by (simp add: pos_to_string_def n sd Let_def)
  also have "\<dots> = digits i"
    unfolding pad unfolding s_def by (rule strip_pad)
  finally show ?thesis
    using pos by (simp add: num_to_string_def)
qed

lemma parseInt_int:
  assumes "0 \<le> i" and "i \<le> 9007199254740992"
  shows "parseInt (Num (Fin (of_int i))) = Fin (of_int i)"
proof -
  from assms(2) have lt: "i < 10 ^ 17" by simp
  have "parseInt (Num (Fin (of_int i))) = parseInt (Str (digits i))"
    by (simp add: parseInt_def num_to_string_int [OF assms(1) lt])
  also have "\<dots> = round_double (of_int (parse_digits (digits i)))"
    by (rule parseInt_digit_string) (rule digits_digit_string [OF assms(1)])
  also have "\<dots> = Fin (of_int i)"
    using assms by (simp add: parse_digits_digits round_double_exact)
  finally show ?thesis .
qed

lemma range_list_elements:
  assumes "list_all wf_item items" and "v \<in> set (range_list_value items)"
  shows "(\<exists>d. digit_string d \<and> v = Str d \<and>
              parseInt v = round_double (of_int (parse_digits d))) \<or>
         (\<exists>i. 0 \<le> i \<and> v = Num (Fin (of_int i)) \<and>
              (i \<le> 9007199254740992 \<longrightarrow> parseInt v = Fin (of_int i)))"
proof -
  from assms(2) obtain it where it: "it \<in> set items" "v \<in> set (item_values it)"
    by (auto simp: range_list_value_def)
  with assms(1) have wf: "wf_item it" by (simp add: list_all_iff)
  show ?thesis
  proof (cases it)
    case (Value d)
    with it wf have "digit_string d" "v = Str d" by simp_all
    then show ?thesis by (simp add: parseInt_digit_string)
  next
    case (Range a b)
    with it obtain i where i: "parse_digits a \<le> i" "v = Num (Fin (of_int i))" by auto
    from wf Range have "0 \<le> parse_digits a"
      by (simp add: digit_string_def parse_digits_nonneg)
    with i have "0 \<le> i" by simp
    with i parseInt_int [of i] show ?thesis by blast
  qed
qed

subsection \<open>What sequence and nOrMore return\<close>

text \<open>
  A \<^verbatim>\<open>sequence\<close> returns the array of its results when all its parsers succeed in a row, and
  \<^verbatim>\<open>null\<close> at its start as soon as one of them returns \<^verbatim>\<open>null\<close>. \<^verbatim>\<open>nOrMore\<close> collects the
  results of its parser up to the first \<^verbatim>\<open>null\<close>, and returns \<^verbatim>\<open>null\<close> at its start when they are
  fewer than the minimum.
\<close>

lemma sequence_loop_fails:
  "i < length ps \<Longrightarrow> chain (take i ps) pos rs q \<Longrightarrow> (ps ! i) q = Done (Null, q') \<Longrightarrow>
   sequence_loop ps opos acc pos = Done (Null, opos)"
proof (induction ps arbitrary: i pos rs acc)
  case Nil
  then show ?case by simp
next
  case (Cons p ps)
  show ?case
  proof (cases i)
    case 0
    with Cons.prems show ?thesis by simp
  next
    case (Suc j)
    with Cons.prems obtain r rs' q1 where rs: "rs = r # rs'" and p: "p pos = Done (r, q1)"
      and r: "r \<noteq> Null" and ch: "chain (take j ps) q1 rs' q" by auto
    from Cons.prems Suc have "j < length ps" "(ps ! j) q = Done (Null, q')" by simp_all
    from Cons.IH [OF this(1) ch this(2)] p r show ?thesis by simp
  qed
qed

lemma sequence_fails:
  "i < length ps \<Longrightarrow> chain (take i ps) pos rs q \<Longrightarrow> (ps ! i) q = Done (Null, q') \<Longrightarrow>
   sequence ps pos = Done (Null, pos)"
  unfolding sequence_def by (rule sequence_loop_fails)

lemma sequence_loop_Null_cause:
  "sequence_loop ps opos acc pos = Done (Null, pos') \<Longrightarrow>
   \<exists>i rs q q'. i < length ps \<and> chain (take i ps) pos rs q \<and> (ps ! i) q = Done (Null, q')"
proof (induction ps arbitrary: pos acc)
  case Nil
  then show ?case by simp
next
  case (Cons p ps)
  from Cons.prems obtain r q1 where p: "p pos = Done (r, q1)"
    by (auto split: result.splits)
  show ?case
  proof (cases "r = Null")
    case True
    with p have "0 < length (p # ps) \<and> chain (take 0 (p # ps)) pos [] pos \<and>
        ((p # ps) ! 0) pos = Done (Null, q1)" by simp
    then show ?thesis by blast
  next
    case False
    with Cons.prems p have "sequence_loop ps opos (acc @ [r]) q1 = Done (Null, pos')" by simp
    from Cons.IH [OF this] obtain i rs q q' where i: "i < length ps"
      "chain (take i ps) q1 rs q" "(ps ! i) q = Done (Null, q')" by blast
    with p False have "Suc i < length (p # ps) \<and> chain (take (Suc i) (p # ps)) pos (r # rs) q \<and>
        ((p # ps) ! Suc i) q = Done (Null, q')" by simp
    then show ?thesis by blast
  qed
qed

lemma sequence_characterised:
  "sequence ps pos = Done (r, pos') \<longleftrightarrow>
     (\<exists>rs. r = Arr rs \<and> chain ps pos rs pos') \<or>
     (r = Null \<and> pos' = pos \<and>
      (\<exists>i rs q q'. i < length ps \<and> chain (take i ps) pos rs q \<and> (ps ! i) q = Done (Null, q')))"
proof
  assume a: "sequence ps pos = Done (r, pos')"
  from sequence_cases [OF a] show "(\<exists>rs. r = Arr rs \<and> chain ps pos rs pos') \<or>
     (r = Null \<and> pos' = pos \<and>
      (\<exists>i rs q q'. i < length ps \<and> chain (take i ps) pos rs q \<and> (ps ! i) q = Done (Null, q')))"
  proof
    assume n: "r = Null \<and> pos' = pos"
    with a have "sequence_loop ps pos [] pos = Done (Null, pos')" by (simp add: sequence_def)
    from sequence_loop_Null_cause [OF this] n show ?thesis by blast
  next
    assume "\<exists>rs. r = Arr rs \<and> chain ps pos rs pos'"
    then show ?thesis by blast
  qed
next
  assume "(\<exists>rs. r = Arr rs \<and> chain ps pos rs pos') \<or>
     (r = Null \<and> pos' = pos \<and>
      (\<exists>i rs q q'. i < length ps \<and> chain (take i ps) pos rs q \<and> (ps ! i) q = Done (Null, q')))"
  then show "sequence ps pos = Done (r, pos')"
  proof
    assume "\<exists>rs. r = Arr rs \<and> chain ps pos rs pos'"
    then show ?thesis by (auto simp: sequence_chain)
  next
    assume "r = Null \<and> pos' = pos \<and>
      (\<exists>i rs q q'. i < length ps \<and> chain (take i ps) pos rs q \<and> (ps ! i) q = Done (Null, q'))"
    then show ?thesis by (auto dest: sequence_fails)
  qed
qed

lemma nOrMore_while_reps:
  "nOrMore_while fuel p acc parsed pos1 = Done (result, pos2) \<Longrightarrow> p pos = Done (parsed, pos1) \<Longrightarrow>
   \<exists>rs. reps p pos rs pos2 \<and> result = acc @ rs \<and> length rs \<le> fuel"
proof (induction fuel arbitrary: acc parsed pos pos1)
  case 0
  then have "parsed = Null" "result = acc" "pos2 = pos1" by (auto split: if_splits)
  with 0 have "reps p pos [] pos2 \<and> result = acc @ [] \<and> length ([] :: val list) \<le> 0" by simp
  then show ?case by blast
next
  case (Suc fuel)
  show ?case
  proof (cases "parsed = Null")
    case True
    with Suc.prems have "reps p pos [] pos2 \<and> result = acc @ [] \<and>
        length ([] :: val list) \<le> Suc fuel" by simp
    then show ?thesis by blast
  next
    case False
    with Suc.prems(1) obtain parsed' pos' where
      pq: "p pos1 = Done (parsed', pos')" and
      rest: "nOrMore_while fuel p (acc @ [parsed]) parsed' pos' = Done (result, pos2)"
      by (auto split: result.splits)
    from Suc.IH [OF rest pq] obtain rs where rs: "reps p pos1 rs pos2"
      "result = (acc @ [parsed]) @ rs" "length rs \<le> fuel" by blast
    with Suc.prems(2) False
    have "reps p pos (parsed # rs) pos2 \<and> result = acc @ (parsed # rs) \<and>
        length (parsed # rs) \<le> Suc fuel" by simp
    then show ?thesis by blast
  qed
qed

lemma reps_first: "reps p pos rs pos' \<Longrightarrow> \<exists>r q. p pos = Done (r, q)"
  by (cases rs) auto

lemma reps_nOrMore_while:
  "reps p pos rs pos2 \<Longrightarrow> p pos = Done (parsed, pos1) \<Longrightarrow> length rs \<le> fuel \<Longrightarrow>
   nOrMore_while fuel p acc parsed pos1 = Done (acc @ rs, pos2)"
proof (induction rs arbitrary: fuel acc pos parsed pos1)
  case Nil
  then show ?case by (simp add: nOrMore_while_Null)
next
  case (Cons r rs)
  from Cons.prems(1,2) have r: "parsed = r" "r \<noteq> Null" and rest: "reps p pos1 rs pos2" by auto
  from Cons.prems(3) obtain k where k: "fuel = Suc k" "length rs \<le> k" by (cases fuel) auto
  from reps_first [OF rest] obtain x y where p1: "p pos1 = Done (x, y)" by blast
  from Cons.IH [OF rest p1 k(2), of "acc @ [r]"] r p1 show ?case by (simp add: k)
qed

lemma nOrMore_reps:
  assumes "nOrMore fuel n p pos = Done (r, pos')"
  shows "\<exists>rs q. reps p pos rs q \<and> length rs \<le> fuel \<and>
           (if length rs < n then r = Null \<and> pos' = pos else r = Arr rs \<and> pos' = q)"
proof -
  from assms obtain parsed pos1 result pos2 where
    1: "p pos = Done (parsed, pos1)" and
    2: "nOrMore_while fuel p [] parsed pos1 = Done (result, pos2)" and
    3: "(r, pos') = (if length result < n then (Null, pos) else (Arr result, pos2))"
    by (auto simp: nOrMore_def split: result.splits if_splits)
  from nOrMore_while_reps [OF 2 1] have "reps p pos result pos2" "length result \<le> fuel"
    by simp_all
  with 3 have "reps p pos result pos2 \<and> length result \<le> fuel \<and>
      (if length result < n then r = Null \<and> pos' = pos else r = Arr result \<and> pos' = pos2)"
    by (simp split: if_splits)
  then show ?thesis by blast
qed

lemma reps_nOrMore:
  assumes "reps p pos rs q" and "length rs \<le> fuel"
  shows "nOrMore fuel n p pos = (if length rs < n then Done (Null, pos) else Done (Arr rs, q))"
proof -
  from reps_first [OF assms(1)] obtain x y where p: "p pos = Done (x, y)" by blast
  from reps_nOrMore_while [OF assms(1) p assms(2), of "[]"] p
  show ?thesis by (simp add: nOrMore_def)
qed

subsection \<open>A range in the rule text\<close>










section \<open>The claims\<close>

text \<open>
  C1. The rule \<^verbatim>\<open>"n is 1"\<close> should be true exactly for the number 1. The rule has no
  \<^verbatim>\<open>@\<close>, so \<^verbatim>\<open>indexOf\<close> gives \<open>-1\<close>, \<^verbatim>\<open>substr(0, -1)\<close> is the empty string and the driver
  returns \<^verbatim>\<open>true\<close> before it parses anything: for the number 2 the result is \<^verbatim>\<open>true\<close>.
  (With a samples marker the rule is parsed: lemma \<open>n_is_1_with_samples\<close> shows that
  \<^verbatim>\<open>"n is 1@"\<close> is true exactly for the number 1.)
\<close>

theorem n_is_1_without_samples_true_for_2:
  "pluralRuleParser fuel ''n is 1'' (Fin 2) = Some (Return (Bool True) [])"
  by (simp add: pluralRuleParser_def substr_def trim_def)

text \<open>
  C2. For every rule without the character \<^verbatim>\<open>@\<close> the cut-and-trim step leaves the empty
  string and \<^verbatim>\<open>pluralRuleParser\<close> returns \<^verbatim>\<open>true\<close> for every number, with any fuel, so
  without parsing the condition.
\<close>

theorem rule_without_at_is_true:
  "CHR ''@'' \<notin> set rule \<Longrightarrow>
   trim (substr rule 0 (indexOf rule CHR ''@'')) = [] \<and>
   pluralRuleParser fuel rule number = Some (Return (Bool True) [])"
  by (simp add: rule_without_at pluralRuleParser_def)

theorem rule_without_at_is_true_witness:
  "CHR ''@'' \<notin> set ''n in 2..4'' \<and>
   trim (substr ''n in 2..4'' 0 (indexOf ''n in 2..4'' CHR ''@'')) = [] \<and>
   pluralRuleParser 0 ''n in 2..4'' (Fin 7) = Some (Return (Bool True) [])"
  using rule_without_at_is_true [of "''n in 2..4''" 0 "Fin 7"] by simp

text \<open>
  C3. A rule on which no production matches should raise an error. \<^verbatim>\<open>condition\<close> returns
  \<^verbatim>\<open>false\<close>, not \<^verbatim>\<open>null\<close>, when its \<^verbatim>\<open>sequence\<close> fails, so the driver's test
  \<^verbatim>\<open>result === null\<close> never holds: for the rule \<^verbatim>\<open>"x@"\<close> the call returns \<^verbatim>\<open>false\<close> and
  writes the warning for an incomplete parse. (Lemma \<open>pluralRuleParser_never_throws\<close>: no
  call throws this error.)
\<close>

theorem unparsable_rule_returns_false:
  "pluralRuleParser 2 ''x@'' (Fin 1) =
   Some (Return (Bool False)
     [''Warning: Rule not parsed completely. Parser stopped at  for rule: x''])"
  by code_simp

text \<open>
  C4. For the number 1.50 the operands should be \<open>v = 2\<close>, \<open>w = 1\<close>, \<open>f = 50\<close>, \<open>t = 5\<close>.
  The number 1.50 is the number 1.5; the code gives \<open>f = 0.5\<close>, \<open>t = 0\<close>, \<open>v = 0\<close>; \<^verbatim>\<open>w\<close> does
  not match the letter \<^verbatim>\<open>w\<close>, and on the letter \<^verbatim>\<open>v\<close> it gives \<open>0\<close>. Through the driver:
  \<^verbatim>\<open>"f is 50@"\<close>, \<^verbatim>\<open>"t is 5@"\<close>, \<^verbatim>\<open>"v is 2@"\<close> and \<^verbatim>\<open>"w is 1@"\<close> are all \<^verbatim>\<open>false\<close> for 1.50.
\<close>

theorem operands_of_one_and_a_half:
  "f_p ''f'' (Fin (3 / 2)) 0 = Done (Num (Fin (1 / 2)), 1) \<and>
   t_p ''t'' (Fin (3 / 2)) 0 = Done (Num (Fin 0), 1) \<and>
   v_p ''v'' (Fin (3 / 2)) 0 = Done (Num (Fin 0), 1) \<and>
   w_p ''w'' (Fin (3 / 2)) 0 = Done (Null, 0) \<and>
   w_p ''v'' (Fin (3 / 2)) 0 = Done (Num (Fin 0), 1) \<and>
   pluralRuleParser 3 ''f is 50@'' (Fin (3 / 2)) = Some (Return (Bool False) []) \<and>
   pluralRuleParser 3 ''t is 5@'' (Fin (3 / 2)) = Some (Return (Bool False) []) \<and>
   pluralRuleParser 3 ''v is 2@'' (Fin (3 / 2)) = Some (Return (Bool False) []) \<and>
   pluralRuleParser 3 ''v is 0@'' (Fin (3 / 2)) = Some (Return (Bool True) []) \<and>
   pluralRuleParser 3 ''w is 1@'' (Fin (3 / 2)) =
     Some (Return (Bool False)
       [''Warning: Rule not parsed completely. Parser stopped at  for rule: w is 1''])"
  by code_simp

text \<open>
  C5. The parser \<^verbatim>\<open>w\<close> calls the token parser of \<^verbatim>\<open>v\<close>: it returns a value only where the
  text at the cursor is the letter \<^verbatim>\<open>v\<close>. In \<^verbatim>\<open>operand\<close>, \<^verbatim>\<open>v\<close> comes before \<^verbatim>\<open>w\<close>, so
  \<^verbatim>\<open>operand\<close> is the choice without \<^verbatim>\<open>w\<close> (the value \<^verbatim>\<open>w\<close> derives is never the result);
  and where the text at the cursor is the letter \<^verbatim>\<open>w\<close>, \<^verbatim>\<open>operand\<close> returns \<^verbatim>\<open>null\<close>.
\<close>

theorem w_operand_never_matches:
  "(w_p rule number pos = Done (r, pos') \<and> r \<noteq> Null \<longrightarrow> substr rule pos 1 = ''v'') \<and>
   operand rule number pos =
     choice [n_p rule number, i_p rule number, f_p rule number, t_p rule number,
             v_p rule number] pos \<and>
   (substr rule pos 1 = ''w'' \<longrightarrow> operand rule number pos = Done (Null, pos))"
proof (intro conjI impI)
  show "substr rule pos 1 = ''v''" if "w_p rule number pos = Done (r, pos') \<and> r \<noteq> Null"
    using that w_p_needs_v by blast
  show "operand rule number pos =
     choice [n_p rule number, i_p rule number, f_p rule number, t_p rule number,
             v_p rule number] pos"
    by (simp add: operand_def n_p_def i_p_def f_p_def t_p_def v_p_def w_p_def
        tok_n_def tok_i_def tok_f_def tok_t_def tok_v_def makeStringParser_def)
  show "operand rule number pos = Done (Null, pos)" if "substr rule pos 1 = ''w''"
    using that
    by (simp add: operand_def n_p_def i_p_def f_p_def t_p_def v_p_def w_p_def
        tok_n_def tok_i_def tok_f_def tok_t_def tok_v_def makeStringParser_def)
qed

theorem w_operand_never_matches_witness:
  "w_p ''w'' (Fin 1) 0 = Done (Null, 0) \<and> substr ''w'' 0 1 = ''w'' \<and>
   operand ''w'' (Fin 1) 0 = Done (Null, 0) \<and>
   w_p ''v'' (Fin 1) 0 = Done (Num (Fin 0), 1) \<and> substr ''v'' 0 1 = ''v''"
proof -
  have e: "w_p ''v'' (Fin 1) 0 = Done (Num (Fin 0), 1)" "w_p ''w'' (Fin 1) 0 = Done (Null, 0)"
    by code_simp+
  have s: "substr ''w'' 0 1 = ''w''"
    by (simp add: substr_def)
  from w_operand_never_matches [of "''w''" "Fin 1" 0 Null 0] s
  have o: "operand ''w'' (Fin 1) 0 = Done (Null, 0)" by blast
  from w_operand_never_matches [of "''v''" "Fin 1" 0 "Num (Fin 0)" 1] e
  have v: "substr ''v'' 0 1 = ''v''" by blast
  from e s o v show ?thesis by blast
qed


text \<open>
  C6. The result of \<^verbatim>\<open>within\<close> should be \<open>first \<le> x < last\<close> for the first and the last
  element of the range list. The code compares \<open>x\<close> with what \<^verbatim>\<open>parseInt\<close> reads from them, a
  double: in
  \<^verbatim>\<open>"n within 0,9007199254740993"\<close> the last element is the digit string of \<open>2^53 + 1\<close>, which
  \<^verbatim>\<open>parseInt\<close> reads as \<open>2^53\<close>; for the number \<open>2^53\<close>, which lies between the two listed
  elements, \<^verbatim>\<open>within\<close> is \<^verbatim>\<open>false\<close>.
\<close>

theorem within_reads_rounded_bound:
  "rangeList 7 ''n within 0,9007199254740993'' 9
     = Done (Arr [Str ''0'', Str ''9007199254740993''], 27) \<and>
   parse_digits ''0'' \<le> 9007199254740992 \<and>
   9007199254740992 < parse_digits ''9007199254740993'' \<and>
   within_p 7 ''n within 0,9007199254740993'' (Fin 9007199254740992) 0
     = Done (Bool False, 27) \<and>
   pluralRuleParser 9 ''n within 0,9007199254740993@'' (Fin 9007199254740992)
     = Some (Return (Bool False) [])"
  by code_simp

text \<open>
  C6, with the bounds as the code reads them. When \<^verbatim>\<open>within\<close> parses, with \<open>x\<close> the value
  of the expression, \<open>nots\<close> the \<^verbatim>\<open>not\<close> keywords and \<open>range_list\<close> the value of the range
  list, its result is
  \<open>first \<le> x < last\<close> for the numbers that \<^verbatim>\<open>parseInt\<close> reads from the first and the last
  element of the list as listed (false for an empty list), negated when a \<^verbatim>\<open>not\<close> was
  parsed. The value \<open>x\<close> is any number, an integer or not; the comparisons are those of
  numbers, false when a side is \<open>NaN\<close>. (Lemma \<open>range_list_elements\<close>: \<^verbatim>\<open>parseInt\<close> reads
  an element that is a digit string as the double nearest to its integer, which is that
  integer up to \<open>2^53\<close>, and an element from a range, up to \<open>2^53\<close>, as itself.)
\<close>

theorem within_is_half_open_interval_test:
  assumes "within_p fuel rule number pos = Done (r, pos')" and "r \<noteq> Null"
  shows "\<exists>x nots range_list p1 p2 p3 p4 p5 w1 w2.
     expression rule number pos = Done (Num x, p1) \<and>
     nOrMore fuel 0 (not_p rule) p1 = Done (Arr nots, p2) \<and>
     list_all (\<lambda>n. n = Str ''not'') nots \<and>
     whitespace rule p2 = Done (w1, p3) \<and> w1 \<noteq> Null \<and>
     tok_within rule p3 = Done (Str ''within'', p4) \<and>
     whitespace rule p4 = Done (w2, p5) \<and> w2 \<noteq> Null \<and>
     rangeList fuel rule p5 = Done (Arr range_list, pos') \<and>
     r = Bool ((range_list \<noteq> [] \<and> num_le (parseInt (hd range_list)) x \<and>
                num_lt x (parseInt (last range_list))) \<noteq> (nots \<noteq> []))"
proof -
  from assms obtain result where
    seq: "sequence [expression rule number, nOrMore fuel 0 (not_p rule), whitespace rule,
                    tok_within rule, whitespace rule, rangeList fuel rule] pos
            = Done (result, pos')" and
    res: "result \<noteq> Null" and
    r: "r = Bool ((js_ge (idx result 0) (parseInt (idx (idx result 5) 0)) \<and>
                   js_lt (idx result 0)
                     (parseInt (idx (idx result 5) (int (length (elems (idx result 5))) - 1))))
                  \<noteq> strict_eq (idx (idx result 1) 0) (Str ''not''))"
    by (auto simp: within_p_def Let_def split: result.splits option.splits if_splits)
  from sequence_cases [OF seq] res obtain e ns w1 kw w2 rl p1 p2 p3 p4 p5 where
    result: "result = Arr [e, ns, w1, kw, w2, rl]" and
    1: "expression rule number pos = Done (e, p1)" "e \<noteq> Null" and
    2: "nOrMore fuel 0 (not_p rule) p1 = Done (ns, p2)" "ns \<noteq> Null" and
    3: "whitespace rule p2 = Done (w1, p3)" "w1 \<noteq> Null" and
    4: "tok_within rule p3 = Done (kw, p4)" "kw \<noteq> Null" and
    5: "whitespace rule p4 = Done (w2, p5)" "w2 \<noteq> Null" and
    6: "rangeList fuel rule p5 = Done (rl, pos')" "rl \<noteq> Null"
    by auto
  from expression_Num [OF 1] obtain x where x: "e = Num x" by blast
  have "\<exists>rs. ns = Arr rs \<and> list_all (\<lambda>n. n = Str ''not'') rs"
    by (rule nOrMore_all [where p = "not_p rule" and P = "\<lambda>n. n = Str ''not''", OF _ 2])
       (erule (1) not_p_result)
  then obtain nots where nots: "ns = Arr nots" "list_all (\<lambda>n. n = Str ''not'') nots" by blast
  from makeStringParser_success [OF 4 [unfolded tok_within_def]] have kw: "kw = Str ''within''"
    by simp
  from rangeList_Arr [OF 6] obtain range_list where rl: "rl = Arr range_list" by blast
  have n0: "strict_eq (idx (Arr nots) 0) (Str ''not'') = (nots \<noteq> [])"
    using nots(2) by (cases nots) simp_all
  have first: "js_ge (Num x) (parseInt (idx (Arr range_list) 0))
      = (range_list \<noteq> [] \<and> num_le (parseInt (hd range_list)) x)"
    by (cases range_list) (simp_all add: js_ge_def num_le_def parseInt_def parseInt_str_def
        is_space_def is_digit_def)
  have lst: "range_list \<noteq> [] \<Longrightarrow>
      js_lt (Num x) (parseInt (idx (Arr range_list) (int (length range_list) - 1)))
      = num_lt x (parseInt (last range_list))"
    by (simp add: js_lt_def last_conv_nth nat_diff_distrib')
  have i: "idx result 0 = Num x" "idx result 1 = Arr nots" "idx result 5 = Arr range_list"
    using result x nots(1) rl by simp_all
  have r': "r = Bool ((js_ge (Num x) (parseInt (idx (Arr range_list) 0)) \<and>
                   js_lt (Num x)
                     (parseInt (idx (Arr range_list) (int (length range_list) - 1))))
                  \<noteq> strict_eq (idx (Arr nots) 0) (Str ''not''))"
    using r by (simp only: i elems.simps)
  have "r = Bool ((range_list \<noteq> [] \<and> num_le (parseInt (hd range_list)) x \<and>
                num_lt x (parseInt (last range_list))) \<noteq> (nots \<noteq> []))"
  proof (cases "range_list = []")
    case True
    with r' first n0 show ?thesis by (simp only:) simp
  next
    case False
    with r' first lst [OF False] n0 show ?thesis by (simp only:) simp
  qed
  with 1 2 3 4 5 6 x nots kw rl show ?thesis by blast
qed

theorem within_is_half_open_interval_test_witness:
  "within_p 3 ''n within 0..5'' (Fin (5 / 2)) 0 = Done (Bool True, 13) \<and>
   (\<exists>x nots range_list p1 p2 p3 p4 p5 w1 w2.
     expression ''n within 0..5'' (Fin (5 / 2)) 0 = Done (Num x, p1) \<and>
     nOrMore 3 0 (not_p ''n within 0..5'') p1 = Done (Arr nots, p2) \<and>
     list_all (\<lambda>n. n = Str ''not'') nots \<and>
     whitespace ''n within 0..5'' p2 = Done (w1, p3) \<and> w1 \<noteq> Null \<and>
     tok_within ''n within 0..5'' p3 = Done (Str ''within'', p4) \<and>
     whitespace ''n within 0..5'' p4 = Done (w2, p5) \<and> w2 \<noteq> Null \<and>
     rangeList 3 ''n within 0..5'' p5 = Done (Arr range_list, 13) \<and>
     Bool True = Bool ((range_list \<noteq> [] \<and> num_le (parseInt (hd range_list)) x \<and>
                num_lt x (parseInt (last range_list))) \<noteq> (nots \<noteq> []))) \<and>
   within_p 3 ''n within 0..5'' (Fin 5) 0 = Done (Bool False, 13) \<and>
   within_p 5 ''n within 5,1'' (Fin 3) 0 = Done (Bool False, 12) \<and>
   within_p 3 ''n not within 0..5'' (Fin (5 / 2)) 0 = Done (Bool False, 17) \<and>
   within_p 7 ''n within 0,9007199254740993'' (Fin 9007199254740991) 0
     = Done (Bool True, 27)"
proof -
  have h: "within_p 3 ''n within 0..5'' (Fin (5 / 2)) 0 = Done (Bool True, 13)"
    by code_simp
  have n: "Bool True \<noteq> Null" by simp
  have e1: "within_p 3 ''n within 0..5'' (Fin 5) 0 = Done (Bool False, 13)"
    by code_simp
  have e2: "within_p 5 ''n within 5,1'' (Fin 3) 0 = Done (Bool False, 12)"
    by code_simp
  have e3: "within_p 3 ''n not within 0..5'' (Fin (5 / 2)) 0 = Done (Bool False, 17)"
    by code_simp
  have e4: "within_p 7 ''n within 0,9007199254740993'' (Fin 9007199254740991) 0
     = Done (Bool True, 27)"
    by code_simp
  from within_is_half_open_interval_test [OF h n] h e1 e2 e3 e4 show ?thesis
    by blast
qed




text \<open>
  C8. What \<^verbatim>\<open>sequence\<close> and \<^verbatim>\<open>nOrMore\<close> return, and where they leave the cursor.
  \<^verbatim>\<open>sequence\<close> returns the array of the results, with the cursor where the last parser
  left it, exactly when its parsers succeed in a row; it returns \<^verbatim>\<open>null\<close>, with the cursor
  back at its start, exactly when some parser, reached after the ones before it
  succeeded, returns \<^verbatim>\<open>null\<close>. \<^verbatim>\<open>nOrMore\<close> runs its parser up to the first \<^verbatim>\<open>null\<close>: with
  fewer than \<open>n\<close> results it returns \<^verbatim>\<open>null\<close> with the cursor back at its start, otherwise
  the array of the results with the cursor where the last call left it; and with fuel for
  the repetitions that is what it returns. When the parsers they run keep to the cursor
  discipline, so do \<^verbatim>\<open>sequence\<close> and \<^verbatim>\<open>nOrMore\<close>: a success ends at or beyond the start.
  Every parser the program hands to them keeps to it: lemma \<open>grammar_invocations_forward\<close>
  lists the argument of each call of \<^verbatim>\<open>sequence\<close> and of \<^verbatim>\<open>nOrMore\<close> in the source.
\<close>

theorem combinators_keep_cursor_discipline:
  "(sequence ps pos = Done (r, pos') \<longleftrightarrow>
      (\<exists>rs. r = Arr rs \<and> chain ps pos rs pos') \<or>
      (r = Null \<and> pos' = pos \<and>
       (\<exists>i rs q q'. i < length ps \<and> chain (take i ps) pos rs q \<and>
          (ps ! i) q = Done (Null, q')))) \<and>
   (list_all forward ps \<longrightarrow> forward (sequence ps)) \<and>
   (nOrMore fuel n p pos = Done (r, pos') \<longrightarrow>
      (\<exists>rs q. reps p pos rs q \<and> length rs \<le> fuel \<and>
         (if length rs < n then r = Null \<and> pos' = pos else r = Arr rs \<and> pos' = q))) \<and>
   (reps p pos rs q \<and> length rs \<le> fuel \<longrightarrow>
      nOrMore fuel n p pos = (if length rs < n then Done (Null, pos) else Done (Arr rs, q))) \<and>
   (forward p \<longrightarrow> forward (nOrMore fuel n p))"
proof (intro conjI impI)
  show "sequence ps pos = Done (r, pos') \<longleftrightarrow>
      (\<exists>rs. r = Arr rs \<and> chain ps pos rs pos') \<or>
      (r = Null \<and> pos' = pos \<and>
       (\<exists>i rs q q'. i < length ps \<and> chain (take i ps) pos rs q \<and>
          (ps ! i) q = Done (Null, q')))"
    by (rule sequence_characterised)
  show "forward (sequence ps)" if "list_all forward ps"
    using that by (simp add: forward_sequence list_all_iff)
  show "\<exists>rs q. reps p pos rs q \<and> length rs \<le> fuel \<and>
         (if length rs < n then r = Null \<and> pos' = pos else r = Arr rs \<and> pos' = q)"
    if "nOrMore fuel n p pos = Done (r, pos')"
    using that by (rule nOrMore_reps)
  show "nOrMore fuel n p pos = (if length rs < n then Done (Null, pos) else Done (Arr rs, q))"
    if "reps p pos rs q \<and> length rs \<le> fuel"
    using that by (simp add: reps_nOrMore)
  show "forward (nOrMore fuel n p)" if "forward p"
    using that by (rule forward_nOrMore)
qed

theorem combinators_keep_cursor_discipline_witness:
  "chain (take 1 [whitespace ''n not in 1'', tok_not ''n not in 1'']) 5 [Str '' ''] 6 \<and>
   tok_not ''n not in 1'' 6 = Done (Null, 6) \<and>
   sequence [whitespace ''n not in 1'', tok_not ''n not in 1''] 5 = Done (Null, 5) \<and>
   chain [whitespace ''n not in 1'', tok_not ''n not in 1''] 1 [Str '' '', Str ''not''] 5 \<and>
   sequence [whitespace ''n not in 1'', tok_not ''n not in 1''] 1
     = Done (Arr [Str '' '', Str ''not''], 5) \<and> (1::nat) \<le> 5 \<and>
   reps (not_p ''n not not in 1'') 1 [Str ''not'', Str ''not''] 9 \<and>
   nOrMore 2 3 (not_p ''n not not in 1'') 1 = Done (Null, 1) \<and>
   nOrMore 2 2 (not_p ''n not not in 1'') 1 = Done (Arr [Str ''not'', Str ''not''], 9) \<and>
   (1::nat) \<le> 9"
proof -
  let ?ps = "[whitespace ''n not in 1'', tok_not ''n not in 1'']"
  let ?p = "not_p ''n not not in 1''"
  have w5: "whitespace ''n not in 1'' 5 = Done (Str '' '', 6)" by code_simp
  have t6: "tok_not ''n not in 1'' 6 = Done (Null, 6)" by code_simp
  have w1: "whitespace ''n not in 1'' 1 = Done (Str '' '', 2)" by code_simp
  have t2: "tok_not ''n not in 1'' 2 = Done (Str ''not'', 5)" by code_simp
  have c5: "chain (take 1 ?ps) 5 [Str '' ''] 6" using w5 by simp
  have c1: "chain ?ps 1 [Str '' '', Str ''not''] 5" using w1 t2 by simp
  have n1: "?p 1 = Done (Str ''not'', 5)" by code_simp
  have n5: "?p 5 = Done (Str ''not'', 9)" by code_simp
  have n9: "?p 9 = Done (Null, 9)" by code_simp
  have rp: "reps ?p 1 [Str ''not'', Str ''not''] 9" using n1 n5 n9 by simp
  have fw: "list_all forward ?ps" by (simp add: forward_tokens)
  have "\<exists>i rs q q'. i < length ?ps \<and> chain (take i ?ps) 5 rs q \<and> (?ps ! i) q = Done (Null, q')"
    apply (rule exI [of _ 1])
    apply (rule exI [of _ "[Str '' '']"])
    apply (rule exI [of _ 6])
    apply (rule exI [of _ 6])
    using c5 t6 apply simp
    done
  with combinators_keep_cursor_discipline [of ?ps 5 Null 5, THEN conjunct1]
  have s5: "sequence ?ps 5 = Done (Null, 5)" by blast
  from combinators_keep_cursor_discipline [of ?ps 1 "Arr [Str '' '', Str ''not'']" 5,
      THEN conjunct1] c1
  have s1: "sequence ?ps 1 = Done (Arr [Str '' '', Str ''not''], 5)" by blast
  have l2: "length [Str ''not'', Str ''not''] \<le> (2::nat)" by simp
  from combinators_keep_cursor_discipline [where fuel = 2 and n = 3 and p = ?p
      and pos = 1 and rs = "[Str ''not'', Str ''not'']" and q = 9,
      THEN conjunct2, THEN conjunct2, THEN conjunct2, THEN conjunct1] rp l2
  have "nOrMore 2 3 ?p 1 = (if length [Str ''not'', Str ''not''] < (3::nat) then Done (Null, 1)
      else Done (Arr [Str ''not'', Str ''not''], 9))" by blast
  then have m3: "nOrMore 2 3 ?p 1 = Done (Null, 1)" by simp
  from combinators_keep_cursor_discipline [where fuel = 2 and n = 2 and p = ?p
      and pos = 1 and rs = "[Str ''not'', Str ''not'']" and q = 9,
      THEN conjunct2, THEN conjunct2, THEN conjunct2, THEN conjunct1] rp l2
  have "nOrMore 2 2 ?p 1 = (if length [Str ''not'', Str ''not''] < (2::nat) then Done (Null, 1)
      else Done (Arr [Str ''not'', Str ''not''], 9))" by blast
  then have m2: "nOrMore 2 2 ?p 1 = Done (Arr [Str ''not'', Str ''not''], 9)" by simp
  have le: "(1::nat) \<le> 5" "(1::nat) \<le> 9" by simp_all
  from c5 t6 s5 c1 s1 rp m3 m2 le show ?thesis by blast
qed

text \<open>
  C9. For the empty rule and for a rule of white space only, \<^verbatim>\<open>pluralRuleParser\<close> returns
  \<^verbatim>\<open>true\<close> for every number.
\<close>

theorem blank_rule_is_true:
  "list_all is_space rule \<Longrightarrow>
   pluralRuleParser fuel rule number = Some (Return (Bool True) [])"
proof -
  assume ws: "list_all is_space rule"
  have "CHR ''@'' \<notin> set rule"
    using ws is_space_not_at by (auto simp: list_all_iff)
  then show ?thesis
    by (simp add: rule_without_at pluralRuleParser_def)
qed

theorem blank_rule_is_true_witness:
  "list_all is_space [CHR '' '', CHR 0x09, CHR '' ''] \<and>
   pluralRuleParser 0 [CHR '' '', CHR 0x09, CHR '' ''] (Fin 3) = Some (Return (Bool True) []) \<and>
   pluralRuleParser 0 [] (Fin 3) = Some (Return (Bool True) [])"
  using blank_rule_is_true [of "[CHR '' '', CHR 0x09, CHR '' '']" 0 "Fin 3"]
    blank_rule_is_true [of "[]" 0 "Fin 3"]
  by (simp add: is_space_def)

text \<open>
  C10. When the parse of the cut rule ends before the end of the rule, the driver writes
  the warning and returns the value the parse computed, a boolean.
\<close>

theorem incomplete_parse_returns_result:
  assumes "rule = trim (substr rule0 0 (indexOf rule0 CHR ''@''))" and "rule \<noteq> []"
    and "start fuel rule number 0 = Done (result, pos)" and "pos \<noteq> length rule"
  shows "\<exists>b. result = Bool b \<and>
    pluralRuleParser fuel rule0 number =
      Some (Return (Bool b)
        [''Warning: Rule not parsed completely. Parser stopped at ''
         @ substr rule 0 (int pos) @ '' for rule: '' @ rule])"
proof -
  from assms(3) obtain b where b: "result = Bool b"
    unfolding start_def by (auto dest: condition_Bool)
  with assms show ?thesis
    by (simp add: pluralRuleParser_def Let_def)
qed

theorem incomplete_parse_returns_result_witness:
  "''n is 1 x'' = trim (substr ''n is 1 x@'' 0 (indexOf ''n is 1 x@'' CHR ''@'')) \<and>
   start 3 ''n is 1 x'' (Fin 1) 0 = Done (Bool True, 6) \<and> (6::nat) \<noteq> length ''n is 1 x'' \<and>
   pluralRuleParser 3 ''n is 1 x@'' (Fin 1) =
      Some (Return (Bool True)
        [''Warning: Rule not parsed completely. Parser stopped at n is 1 for rule: n is 1 x''])"
proof -
  have h1: "''n is 1 x'' = trim (substr ''n is 1 x@'' 0 (indexOf ''n is 1 x@'' CHR ''@''))"
    by code_simp
  have h2: "''n is 1 x'' \<noteq> []" by simp
  have h3: "start 3 ''n is 1 x'' (Fin 1) 0 = Done (Bool True, 6)"
    by code_simp
  have h4: "(6::nat) \<noteq> length ''n is 1 x''" by simp
  have s: "substr ''n is 1 x'' 0 6 = ''n is 1''" by code_simp
  from incomplete_parse_returns_result [OF h1 h2 h3 h4]
  have "pluralRuleParser 3 ''n is 1 x@'' (Fin 1) =
      Some (Return (Bool True)
        [''Warning: Rule not parsed completely. Parser stopped at ''
         @ substr ''n is 1 x'' 0 (int 6) @ '' for rule: '' @ ''n is 1 x''])"
    by auto
  then have "pluralRuleParser 3 ''n is 1 x@'' (Fin 1) =
      Some (Return (Bool True)
        [''Warning: Rule not parsed completely. Parser stopped at n is 1 for rule: n is 1 x''])"
    by (simp add: s)
  with h1 h3 h4 show ?thesis by blast
qed

end
